theory Spec2Isabelle
  imports Main "HOL-Library.Code_Target_Nat"
begin

section \<open>JavaScript strings and values\<close>

text \<open>
  A JavaScript string is a sequence of UTF-16 code units; the scanner's regular expression
  has no \<open>u\<close> flag, so it works on code units as well. A code unit is a \<open>nat\<close>.
  \<open>js\<close> turns an ASCII literal into such a string.
\<close>

type_synonym jsstring = "nat list"

definition js :: "string \<Rightarrow> jsstring" where
  "js s = map of_char s"

text \<open>The code units the source names in its literals and in its regular expressions.\<close>

abbreviation DQUOTE :: nat where "DQUOTE \<equiv> 34"       \<comment> \<open>the double quote\<close>
abbreviation SQUOTE :: nat where "SQUOTE \<equiv> 39"       \<comment> \<open>the single quote\<close>
abbreviation BACKTICK :: nat where "BACKTICK \<equiv> 96"
abbreviation LDQUOTE :: nat where "LDQUOTE \<equiv> 8220"   \<comment> \<open>U+201C, left curly double quote\<close>
abbreviation RDQUOTE :: nat where "RDQUOTE \<equiv> 8221"   \<comment> \<open>U+201D, right curly double quote\<close>
abbreviation LSQUOTE :: nat where "LSQUOTE \<equiv> 8216"   \<comment> \<open>U+2018, left curly single quote\<close>
abbreviation RSQUOTE :: nat where "RSQUOTE \<equiv> 8217"   \<comment> \<open>U+2019, right curly single quote\<close>
abbreviation LANGLE :: nat where "LANGLE \<equiv> 60"       \<comment> \<open>the character \<open><\<close>\<close>
abbreviation RANGLE :: nat where "RANGLE \<equiv> 62"       \<comment> \<open>the character \<open>>\<close>\<close>
abbreviation COMMA :: nat where "COMMA \<equiv> 44"
abbreviation EQUALS :: nat where "EQUALS \<equiv> 61"
abbreviation SLASH :: nat where "SLASH \<equiv> 47"
abbreviation COLON :: nat where "COLON \<equiv> 58"

text \<open>
  The values a payload carries are JSON values (the payload is a decoded websocket frame).
  The code only ever converts a number to a string, so a number is represented by the
  string that \<open>String(n)\<close> returns for it.
\<close>

datatype jsval =
    JNull
  | JBool bool
  | JNum jsstring
  | JStr jsstring
  | JArr "jsval list"
  | JObj "(jsstring \<times> jsval) list"

text \<open>
  An object is the list of its own enumerable properties in the order of their enumeration
  (what \<open>Object.entries\<close> returns), with distinct keys.
\<close>

type_synonym obj = "(jsstring \<times> jsval) list"

datatype error = TypeError

subsection \<open>String operations of the standard library\<close>

text \<open>\<open>xs.join(sep)\<close> on an array of strings.\<close>

fun join :: "jsstring \<Rightarrow> jsstring list \<Rightarrow> jsstring" where
  "join sep [] = []"
| "join sep [x] = x"
| "join sep (x # y # ys) = x @ sep @ join sep (y # ys)"

text \<open>
  \<open>s.split(c)\<close> for a one-character separator: the pieces between the separators, always
  at least one piece (\<open>''.split(',')\<close> is \<open>['']\<close>).
\<close>

fun split :: "jsstring \<Rightarrow> nat \<Rightarrow> jsstring list" where
  "split [] c = [[]]"
| "split (x # xs) c =
     (if x = c then [] # split xs c
      else (case split xs c of [] \<Rightarrow> [[x]] | p # ps \<Rightarrow> (x # p) # ps))"

definition startsWith :: "jsstring \<Rightarrow> jsstring \<Rightarrow> bool" where
  "startsWith s p = (take (length p) s = p)"

definition endsWith :: "jsstring \<Rightarrow> jsstring \<Rightarrow> bool" where
  "endsWith s p = (length p \<le> length s \<and> drop (length s - length p) s = p)"

text \<open>
  \<open>s.slice(b, e)\<close>: a negative index counts from the end, and both indices are clamped
  to the string. \<open>slice_from s b\<close> is \<open>s.slice(b)\<close>.
\<close>

definition slice :: "jsstring \<Rightarrow> int \<Rightarrow> int \<Rightarrow> jsstring" where
  "slice s b e =
     (let n = int (length s);
          from = (if b < 0 then max (n + b) 0 else min b n);
          to = (if e < 0 then max (n + e) 0 else min e n)
      in take (nat (to - from)) (drop (nat from) s))"

definition slice_from :: "jsstring \<Rightarrow> int \<Rightarrow> jsstring" where
  "slice_from s b = slice s b (int (length s))"

text \<open>\<open>s.indexOf(m)\<close>: the first position at which \<open>m\<close> occurs in \<open>s\<close>, or \<open>-1\<close>.\<close>

fun indexOf :: "jsstring \<Rightarrow> jsstring \<Rightarrow> int" where
  "indexOf [] m = (if m = [] then 0 else - 1)"
| "indexOf (x # xs) m =
     (if startsWith (x # xs) m then 0
      else (let i = indexOf xs m in if i < 0 then - 1 else i + 1))"

text \<open>\<open>s.replace(p, r)\<close> with a string pattern: the first occurrence only.\<close>

fun replace :: "jsstring \<Rightarrow> jsstring \<Rightarrow> jsstring \<Rightarrow> jsstring" where
  "replace [] p r = (if p = [] then r else [])"
| "replace (x # xs) p r =
     (if startsWith (x # xs) p then r @ drop (length p) (x # xs)
      else x # replace xs p r)"

text \<open>
  \<open>s.toLowerCase()\<close>. On a string of ASCII code units it maps the letters \<open>A\<close> to \<open>Z\<close> to
  \<open>a\<close> to \<open>z\<close> and leaves every other code unit as it is. For a string with a code unit
  beyond ASCII the result is given by the case mapping of Unicode (a table of the host,
  which can also change the length of the string): that mapping is the parameter \<open>lc\<close>.
\<close>

definition ascii_lower :: "nat \<Rightarrow> nat" where
  "ascii_lower c = (if 65 \<le> c \<and> c \<le> 90 then c + 32 else c)"

definition toLowerCase :: "(jsstring \<Rightarrow> jsstring) \<Rightarrow> jsstring \<Rightarrow> jsstring" where
  "toLowerCase lc s = (if list_all (\<lambda>c. c < 128) s then map ascii_lower s else lc s)"

text \<open>
  The template literal \<open>`${v}`\<close>: a string is itself, an array joins its elements with a
  comma (\<open>null\<close> elements as the empty string), a plain object is \<open>[object Object]\<close>.
\<close>

fun to_string :: "jsval \<Rightarrow> jsstring" where
  "to_string JNull = js ''null''"
| "to_string (JBool b) = (if b then js ''true'' else js ''false'')"
| "to_string (JNum s) = s"
| "to_string (JStr s) = s"
| "to_string (JArr vs) = join [COMMA] (map (\<lambda>v. if v = JNull then [] else to_string v) vs)"
| "to_string (JObj kvs) = js ''[object Object]''"

text \<open>A property read \<open>o.k\<close>; \<open>None\<close> is \<open>undefined\<close>.\<close>

definition obj_get :: "obj \<Rightarrow> jsstring \<Rightarrow> jsval option" where
  "obj_get ob k = map_of ob k"

definition to_string_opt :: "jsval option \<Rightarrow> jsstring" where
  "to_string_opt v = (case v of None \<Rightarrow> js ''undefined'' | Some w \<Rightarrow> to_string w)"

text \<open>
  The order of the properties of an object: the keys that are array indices (the decimal
  numerals without leading zeros of the integers below $2^{32} - 1$) come first, in
  ascending order, then the other keys in the order of their creation.
\<close>

definition is_digit :: "nat \<Rightarrow> bool" where
  "is_digit c = (48 \<le> c \<and> c \<le> 57)"

definition decimal :: "jsstring \<Rightarrow> nat" where
  "decimal k = foldl (\<lambda>n c. 10 * n + (c - 48)) 0 k"

definition array_index :: "jsstring \<Rightarrow> nat option" where
  "array_index k =
     (if k \<noteq> [] \<and> list_all is_digit k \<and> (length k = 1 \<or> hd k \<noteq> 48) \<and> decimal k < 4294967295
      then Some (decimal k) else None)"

text \<open>
  A property write \<open>o[k] = v\<close>. An existing key keeps its place and gets the new value
  (\<open>obj_update\<close>). A new key that is an array index goes after the array indices below
  it (\<open>obj_insert_index\<close>); any other new key goes last.
\<close>

fun obj_update :: "jsstring \<Rightarrow> jsval \<Rightarrow> obj \<Rightarrow> obj" where
  "obj_update k v [] = []"
| "obj_update k v ((k', v') # ob) = (if k' = k then (k, v) # ob else (k', v') # obj_update k v ob)"

fun obj_insert_index :: "nat \<Rightarrow> jsstring \<Rightarrow> jsval \<Rightarrow> obj \<Rightarrow> obj" where
  "obj_insert_index n k v [] = [(k, v)]"
| "obj_insert_index n k v ((k', v') # ob) =
     (case array_index k' of
        Some n' \<Rightarrow>
          if n' < n then (k', v') # obj_insert_index n k v ob else (k, v) # (k', v') # ob
      | None \<Rightarrow> (k, v) # (k', v') # ob)"

definition obj_set :: "jsstring \<Rightarrow> jsval \<Rightarrow> obj \<Rightarrow> obj" where
  "obj_set k v ob =
     (case map_of ob k of
        Some old \<Rightarrow> obj_update k v ob
      | None \<Rightarrow>
          (case array_index k of
             Some n \<Rightarrow> obj_insert_index n k v ob
           | None \<Rightarrow> ob @ [(k, v)]))"

text \<open>The spread \<open>{...a, ...b}\<close> and \<open>Object.fromEntries\<close>: later entries win.\<close>

definition spread :: "obj \<Rightarrow> obj \<Rightarrow> obj" where
  "spread a b = fold (\<lambda>(k, v). obj_set k v) b a"

definition fromEntries :: "(jsstring \<times> jsval) list \<Rightarrow> obj" where
  "fromEntries es = spread [] es"

section \<open>The token scanner\<close>

subsection \<open>The scanner's regular expression\<close>

text \<open>
  The regular expression of \<open>Message.parse\<close> is an alternation of five quoted spans
  \<open>o[^c]*?c\<close> (an opening quote \<open>o\<close>, lazily any code units but the closing quote
  \<open>c\<close>, then \<open>c\<close>) and the bracket tag \<open><[^>]+?>\<close>. \<open>quoted o c s\<close> is the match of
  one quoted span anchored at the head of \<open>s\<close>: the lazy star stops at the first \<open>c\<close>.
\<close>

fun quoted :: "nat \<Rightarrow> nat \<Rightarrow> jsstring \<Rightarrow> jsstring option" where
  "quoted opn cls [] = None"
| "quoted opn cls (x # xs) =
     (if x = opn \<and> cls \<in> set xs then Some (x # takeWhile (\<lambda>y. y \<noteq> cls) xs @ [cls]) else None)"

text \<open>\<open><[^>]+?>\<close> anchored at the head: at least one code unit that is not \<open>>\<close>.\<close>

fun bracket :: "jsstring \<Rightarrow> jsstring option" where
  "bracket (x # y # ys) =
     (if x = LANGLE \<and> y \<noteq> RANGLE \<and> RANGLE \<in> set ys
      then Some (x # y # takeWhile (\<lambda>z. z \<noteq> RANGLE) ys @ [RANGLE]) else None)"
| "bracket _ = None"

text \<open>The alternatives in the order of the source, anchored at the head of \<open>s\<close>.\<close>

definition match_here :: "jsstring \<Rightarrow> jsstring option" where
  "match_here s =
     (case quoted DQUOTE DQUOTE s of Some m \<Rightarrow> Some m | None \<Rightarrow>
      case quoted SQUOTE SQUOTE s of Some m \<Rightarrow> Some m | None \<Rightarrow>
      case quoted BACKTICK BACKTICK s of Some m \<Rightarrow> Some m | None \<Rightarrow>
      case quoted LDQUOTE RDQUOTE s of Some m \<Rightarrow> Some m | None \<Rightarrow>
      case quoted LSQUOTE RSQUOTE s of Some m \<Rightarrow> Some m | None \<Rightarrow>
      bracket s)"

text \<open>
  \<open>template.match(regex)\<close>, first element: the match at the leftmost position that has
  one, \<open>None\<close> when the string has no match (\<open>match\<close> is then \<open>undefined\<close>).
\<close>

fun regex_match :: "jsstring \<Rightarrow> jsstring option" where
  "regex_match [] = None"
| "regex_match (x # xs) =
     (case match_here (x # xs) of Some m \<Rightarrow> Some m | None \<Rightarrow> regex_match xs)"

text \<open>The test \<open>/^[a-z]+:[0-9]+$/.test(type)\<close>.\<close>

definition is_lower :: "nat \<Rightarrow> bool" where
  "is_lower c = (97 \<le> c \<and> c \<le> 122)"

definition shorthand :: "jsstring \<Rightarrow> bool" where
  "shorthand t =
     (takeWhile is_lower t \<noteq> [] \<and>
      (case dropWhile is_lower t of
         [] \<Rightarrow> False
       | c # ds \<Rightarrow> c = COLON \<and> ds \<noteq> [] \<and> list_all is_digit ds))"

subsection \<open>Segments\<close>

text \<open>
  A segment (\<open>MessageElem\<close>) is an object with a \<open>type\<close> property and further
  properties. The text segment \<open>{type: 'text', text: s}\<close>:
\<close>

type_synonym segment = obj

definition text_segment :: "jsstring \<Rightarrow> segment" where
  "text_segment s = [(js ''type'', JStr (js ''text'')), (js ''text'', JStr s)]"

text \<open>
  The variable \<open>attrs\<close> holds strings, except on the \<open>@everyone\<close> path, where the code
  assigns the array of arrays \<open>[['all', true]]\<close>.
\<close>

datatype attr = AStr jsstring | AArr "jsval list"

definition attr_string :: "attr \<Rightarrow> jsstring" where
  "attr_string a = (case a of AStr s \<Rightarrow> s | AArr vs \<Rightarrow> to_string (JArr vs))"

text \<open>
  The classification of a tag's \<open>type\<close> (the chain of \<open>if\<close>s of the source), giving the
  normalised type and attributes. \<open>payload.mentions.find\<close> raises a TypeError when
  \<open>payload.mentions\<close> is \<open>undefined\<close>.
\<close>

definition classify ::
  "obj list option \<Rightarrow> jsstring \<Rightarrow> jsstring list \<Rightarrow> error + (jsstring \<times> attr list)" where
  "classify mentions type attrs =
     (if startsWith type (js ''faceType'') then
        Inr (js ''face'', map (\<lambda>a. AStr (replace a (js ''faceId'') (js ''id''))) attrs)
      else if startsWith type (js ''@'') then
        (if startsWith type (js ''@!'') then
           (let id = slice_from type 2 in
            case mentions of
              None \<Rightarrow> Inl TypeError
            | Some ms \<Rightarrow>
                Inr (js ''at'',
                     map (\<lambda>(key, v). AStr (key @ js ''='' @ to_string v))
                       (case find (\<lambda>u. obj_get u (js ''id'') = Some (JStr id)) ms of
                          None \<Rightarrow> []
                        | Some u \<Rightarrow> u)))
         else if type = js ''@everyone'' then
           Inr (js ''at'', [AArr [JStr (js ''all''), JBool True]])
         else Inr (type, map AStr attrs))
      else if shorthand type then
        Inr (js ''face'',
             [AStr (js ''id='' @ to_string_opt
                      (case split type COLON of _ # d # _ \<Rightarrow> Some (JStr d) | _ \<Rightarrow> None))])
      else Inr (type, map AStr attrs))"

text \<open>
  The callback that turns one attribute into an entry: \<open>attr.split('=')\<close>, the key
  lowercased, the value \<open>trimQuote(values.join('='))\<close>. An array has no \<open>split\<close> method,
  so the call raises a TypeError on it. \<open>trimQuote\<close> is imported from a module that is
  not part of these sources; it is the parameter \<open>tq\<close>.
\<close>

definition attr_entry :: "(jsstring \<Rightarrow> jsstring) \<Rightarrow> (jsstring \<Rightarrow> jsstring) \<Rightarrow> attr \<Rightarrow> error + (jsstring \<times> jsval)" where
  "attr_entry lc tq a =
     (case a of
        AArr vs \<Rightarrow> Inl TypeError
      | AStr s \<Rightarrow>
          (case split s EQUALS of
             [] \<Rightarrow> Inl TypeError
           | key # values \<Rightarrow> Inr (toLowerCase lc key, JStr (tq (join [EQUALS] values)))))"

text \<open>\<open>xs.map(f)\<close> for a callback that may raise: the first exception ends the map.\<close>

fun map_err :: "('a \<Rightarrow> error + 'b) \<Rightarrow> 'a list \<Rightarrow> error + 'b list" where
  "map_err f [] = Inr []"
| "map_err f (x # xs) =
     (case f x of
        Inl e \<Rightarrow> Inl e
      | Inr y \<Rightarrow> (case map_err f xs of Inl e \<Rightarrow> Inl e | Inr ys \<Rightarrow> Inr (y # ys)))"

text \<open>
  The branch of the loop for a bracket tag, from the inner text \<open>match.slice(1, -1)\<close>:
  the segment pushed and the text appended to \<open>brief\<close>.
\<close>

definition tag ::
  "(jsstring \<Rightarrow> jsstring) \<Rightarrow> (jsstring \<Rightarrow> jsstring) \<Rightarrow> obj list option \<Rightarrow> jsstring \<Rightarrow> error + (segment \<times> jsstring)" where
  "tag lc tq mentions inner =
     (case split inner COMMA of
        [] \<Rightarrow> Inl TypeError
      | type0 # attrs0 \<Rightarrow>
          (case classify mentions type0 attrs0 of
             Inl e \<Rightarrow> Inl e
           | Inr (type, attrs) \<Rightarrow>
               (case map_err (attr_entry lc tq) attrs of
                  Inl e \<Rightarrow> Inl e
                | Inr entries \<Rightarrow>
                    Inr (spread [(js ''type'', JStr type)] (fromEntries entries),
                         js ''<'' @ type @ js '','' @ join [COMMA] (map attr_string attrs) @ js ''>''))))"

subsection \<open>The scanning loop\<close>

text \<open>
  Every match of the regular expression has at least two code units, so the loop's
  \<open>template\<close> gets shorter in each round: the loop terminates.
\<close>

lemma quoted_length: "quoted opn cls s = Some m \<Longrightarrow> 2 \<le> length m"
  by (cases s) (auto split: if_splits)

lemma bracket_length: "bracket s = Some m \<Longrightarrow> 2 \<le> length m"
  by (induction s rule: bracket.induct) (auto split: if_splits)

lemma match_here_length: "match_here s = Some m \<Longrightarrow> 2 \<le> length m"
  unfolding match_here_def
  by (auto split: option.splits dest: quoted_length bracket_length)

lemma regex_match_length: "regex_match s = Some m \<Longrightarrow> 2 \<le> length m"
  by (induction s) (auto split: option.splits dest: match_here_length)

lemma indexOf_ge: "- 1 \<le> indexOf s m"
  by (induction s) (auto simp: Let_def)

lemma slice_from_shorter: "0 < k \<Longrightarrow> s \<noteq> [] \<Longrightarrow> length (slice_from s k) < length s"
  by (auto simp: slice_from_def slice_def Let_def)

lemma loop_advances:
  assumes "regex_match s = Some m"
  shows "length (slice_from s (indexOf s m + int (length m))) < length s"
proof -
  from assms have "s \<noteq> []" by auto
  moreover have "0 < indexOf s m + int (length m)"
    using regex_match_length [OF assms] indexOf_ge [of s m] by linarith
  ultimately show ?thesis by (rule slice_from_shorter [rotated])
qed

text \<open>
  The \<open>while\<close> loop of \<open>Message.parse\<close>, on its three variables. It returns them as they
  are when the loop is left, or the exception raised inside it.
\<close>

function scan_loop ::
  "(jsstring \<Rightarrow> jsstring) \<Rightarrow> (jsstring \<Rightarrow> jsstring) \<Rightarrow> obj list option \<Rightarrow> jsstring \<Rightarrow> segment list \<Rightarrow> jsstring
     \<Rightarrow> error + (jsstring \<times> segment list \<times> jsstring)" where
  "scan_loop lc tq mentions template result brief =
     (if length template = 0 then Inr (template, result, brief)
      else
        (case regex_match template of
           None \<Rightarrow> Inr (template, result, brief)
         | Some match \<Rightarrow>
             (let index = indexOf template match;
                  prevText = slice template 0 index;
                  result1 = (if prevText \<noteq> [] then result @ [text_segment prevText] else result);
                  brief1 = (if prevText \<noteq> [] then brief @ prevText else brief);
                  template1 = slice_from template (index + int (length match))
              in if startsWith match (js ''<'') then
                   (case tag lc tq mentions (slice match 1 (- 1)) of
                      Inl e \<Rightarrow> Inl e
                    | Inr (seg, b) \<Rightarrow>
                        scan_loop lc tq mentions template1 (result1 @ [seg]) (brief1 @ b))
                 else scan_loop lc tq mentions template1 (result1 @ [text_segment match])
                        (brief1 @ match))))"
  by pat_completeness auto
termination
  by (relation "measure (\<lambda>(lc, tq, mentions, template, result, brief). length template)")
     (simp_all add: loop_advances)

declare scan_loop.simps [simp del]

text \<open>
  Step 1 of \<open>Message.parse\<close> (the source's comment numbers its two steps): the loop from
  the empty \<open>result\<close> and \<open>brief\<close>, then the text left in \<open>template\<close>, if any, as a last
  text segment.
\<close>

definition scanner ::
  "(jsstring \<Rightarrow> jsstring) \<Rightarrow> (jsstring \<Rightarrow> jsstring) \<Rightarrow> obj list option \<Rightarrow> jsstring \<Rightarrow> error + (segment list \<times> jsstring)" where
  "scanner lc tq mentions template0 =
     (case scan_loop lc tq mentions template0 [] [] of
        Inl e \<Rightarrow> Inl e
      | Inr (template, result, brief) \<Rightarrow>
          Inr (if template \<noteq> [] then result @ [text_segment template] else result,
               if template \<noteq> [] then brief @ template else brief))"

section \<open>The message assembler\<close>

text \<open>
  The payload, with the fields \<open>Message.parse\<close> reads typed as the inbound payload has
  them: \<open>content\<close> a string, \<open>attachments\<close> and \<open>mentions\<close> arrays of objects, each of
  the three possibly absent (\<open>None\<close>). \<open>other\<close> holds the remaining fields.
\<close>

record payload =
  content :: "jsstring option"
  attachments :: "obj list option"
  mentions :: "obj list option"
  other :: obj

text \<open>
  One round of the loop over the attachments: the segment pushed and the text appended
  to \<open>brief\<close>. \<open>rest_data\<close> is the rest \<open>data\<close> of the destructuring, the attachment
  without \<open>content_type\<close>; \<open>entries_brief\<close> is the template literal appended to \<open>brief\<close>.
  \<open>content_type.split\<close> raises a TypeError unless \<open>content_type\<close> is a string.
\<close>

definition rest_data :: "obj \<Rightarrow> obj" where
  "rest_data attachment = filter (\<lambda>(key, v). key \<noteq> js ''content_type'') attachment"

definition entries_brief :: "jsstring \<Rightarrow> obj \<Rightarrow> jsstring" where
  "entries_brief type data =
     js ''<'' @ type @ js '','' @
       join [COMMA] (map (\<lambda>(key, v). key @ js ''='' @ to_string v) data) @ js ''>''"

definition attachment_segment :: "obj \<Rightarrow> error + (segment \<times> jsstring)" where
  "attachment_segment attachment =
     (let content_type = obj_get attachment (js ''content_type'');
          data = rest_data attachment
      in case content_type of
           Some (JStr ct) \<Rightarrow>
             (case split ct SLASH of
                [] \<Rightarrow> Inl TypeError
              | type # _ \<Rightarrow>
                  Inr (obj_set (js ''url'') (JStr (js ''https://'' @ to_string_opt (obj_get data (js ''url''))))
                        (obj_set (js ''src'') (JStr (js ''https://'' @ to_string_opt (obj_get data (js ''src''))))
                          (spread [(js ''type'', JStr type)] data)),
                       entries_brief type data))
         | _ \<Rightarrow> Inl TypeError)"

fun attachments_loop ::
  "obj list \<Rightarrow> segment list \<Rightarrow> jsstring \<Rightarrow> error + (segment list \<times> jsstring)" where
  "attachments_loop [] result brief = Inr (result, brief)"
| "attachments_loop (attachment # rest) result brief =
     (case attachment_segment attachment of
        Inl e \<Rightarrow> Inl e
      | Inr (seg, b) \<Rightarrow> attachments_loop rest (result @ [seg]) (brief @ b))"

text \<open>The expression \<open>payload.content || ''\<close>, and the attachments the loop of step 2 visits.\<close>

definition content_of :: "payload \<Rightarrow> jsstring" where
  "content_of p = (case content p of None \<Rightarrow> [] | Some c \<Rightarrow> c)"

definition attachments_of :: "payload \<Rightarrow> obj list" where
  "attachments_of p = (case attachments p of None \<Rightarrow> [] | Some atts \<Rightarrow> atts)"

text \<open>
  \<open>Message.parse\<close>: step 1 on \<open>payload.content || ''\<close>, step 2 (the loop over the
  attachments, when the field is there), then the two \<open>delete\<close>s. It returns
  \<open>[result, brief]\<close> and, since it changes its argument, the payload as it is afterwards;
  or the exception it raised.
\<close>

definition parse ::
  "(jsstring \<Rightarrow> jsstring) \<Rightarrow> (jsstring \<Rightarrow> jsstring) \<Rightarrow> payload \<Rightarrow> error + ((segment list \<times> jsstring) \<times> payload)" where
  "parse lc tq payload =
     (let template = content_of payload
      in case scanner lc tq (mentions payload) template of
           Inl e \<Rightarrow> Inl e
         | Inr (result, brief) \<Rightarrow>
             (case (case attachments payload of
                      None \<Rightarrow> Inr (result, brief)
                    | Some atts \<Rightarrow> attachments_loop atts result brief) of
                Inl e \<Rightarrow> Inl e
              | Inr (result2, brief2) \<Rightarrow>
                  Inr ((result2, brief2), payload\<lparr>attachments := None, mentions := None\<rparr>)))"

text \<open>
  Modelled from the spec: \<open>trimQuote\<close> of the module \<open>@/utils\<close>, which these sources do
  not contain. One layer of surrounding quotes is stripped when the string starts with an
  opening quote and ends with the matching closing quote (double, single, backtick, or
  the two pairs of curly quotes). The evaluations at concrete payloads below take
  \<open>trimQuote\<close> for \<open>tq\<close> and the identity for the case mapping \<open>lc\<close>: every key in them
  is ASCII, so \<open>toLowerCase\<close> never applies \<open>lc\<close> there.
\<close>

definition trimQuote :: "jsstring \<Rightarrow> jsstring" where
  "trimQuote s =
     (if list_ex (\<lambda>(opn, cls). startsWith s [opn] \<and> endsWith s [cls])
           [(DQUOTE, DQUOTE), (SQUOTE, SQUOTE), (BACKTICK, BACKTICK),
            (LDQUOTE, RDQUOTE), (LSQUOTE, RSQUOTE)]
      then slice s 1 (- 1) else s)"

section \<open>The guild message event\<close>

text \<open>
  The two lookups of the connection object that \<open>GuildMessageEvent\<close> calls. Each returns
  an object or raises (\<open>Inl\<close>).
\<close>

record ('g, 'c, 'e) Bot =
  pickGuild :: "jsstring option \<Rightarrow> 'e + 'g"
  pickChannel :: "jsstring option \<Rightarrow> 'e + 'c"

record ('g, 'c, 'e) GuildMessageEvent =
  bot :: "('g, 'c, 'e) Bot"
  guild_id :: "jsstring option"
  channel_id :: "jsstring option"
  message_id :: jsstring

text \<open>The accessors \<open>guild\<close> and \<open>channel\<close>: \<open>try { return ... } catch { return null }\<close>.\<close>

definition guild :: "('g, 'c, 'e) GuildMessageEvent \<Rightarrow> 'g option" where
  "guild ev = (case pickGuild (bot ev) (guild_id ev) of Inl e \<Rightarrow> None | Inr g \<Rightarrow> Some g)"

definition channel :: "('g, 'c, 'e) GuildMessageEvent \<Rightarrow> 'c option" where
  "channel ev = (case pickChannel (bot ev) (channel_id ev) of Inl e \<Rightarrow> None | Inr c \<Rightarrow> Some c)"

section \<open>What one piece of the content produces\<close>

text \<open>
  What the loop pushes and appends to \<open>brief\<close> for one match \<open>m\<close> of the regular
  expression: the tag branch for a match that starts with \<open><\<close>, else the match itself as
  a text segment.
\<close>

definition match_out ::
  "(jsstring \<Rightarrow> jsstring) \<Rightarrow> (jsstring \<Rightarrow> jsstring) \<Rightarrow> obj list option \<Rightarrow> jsstring \<Rightarrow> error + (segment \<times> jsstring)" where
  "match_out lc tq ms m =
     (if startsWith m (js ''<'') then tag lc tq ms (slice m 1 (- 1)) else Inr (text_segment m, m))"

text \<open>
  \<open>emits lc tq ms piece out\<close>: the piece of the content \<open>piece\<close> accounts for the pair \<open>out\<close>
  of a segment and a part of \<open>brief\<close>, either as text copied verbatim or as a bracket tag.
\<close>

definition emits ::
  "(jsstring \<Rightarrow> jsstring) \<Rightarrow> (jsstring \<Rightarrow> jsstring) \<Rightarrow> obj list option \<Rightarrow> jsstring \<Rightarrow> segment \<times> jsstring \<Rightarrow> bool" where
  "emits lc tq ms piece out \<longleftrightarrow>
     out = (text_segment piece, piece) \<or>
     (startsWith piece (js ''<'') \<and> endsWith piece (js ''>'') \<and>
      tag lc tq ms (slice piece 1 (- 1)) = Inr out)"

text \<open>
  A content that consists of bracket tags only, given by the inner texts of the tags. A
  tag is stable when its classification leaves it at least one attribute and no attribute
  contains a comma or \<open>>\<close>: its brief form is then read back as the same tag.
\<close>

definition bracket_tags :: "jsstring list \<Rightarrow> jsstring" where
  "bracket_tags inners = concat (map (\<lambda>inner. LANGLE # inner @ [RANGLE]) inners)"

definition plain_token :: "attr \<Rightarrow> bool" where
  "plain_token a = (case a of AStr s \<Rightarrow> COMMA \<notin> set s \<and> RANGLE \<notin> set s | AArr vs \<Rightarrow> False)"

definition stable_tag :: "obj list option \<Rightarrow> jsstring \<Rightarrow> bool" where
  "stable_tag ms inner \<longleftrightarrow>
     inner \<noteq> [] \<and> RANGLE \<notin> set inner \<and>
     (case split inner COMMA of
        [] \<Rightarrow> False
      | type0 # attrs0 \<Rightarrow>
          (case classify ms type0 attrs0 of
             Inl e \<Rightarrow> False
           | Inr (type, attrs) \<Rightarrow> attrs \<noteq> [] \<and> list_all plain_token attrs))"

section \<open>Auxiliary facts\<close>

text \<open>The equations that evaluate the model on a concrete payload.\<close>

lemmas eval_simps =
  parse_def content_of_def attachments_of_def scanner_def scan_loop.simps js_def
  startsWith_def endsWith_def slice_def slice_from_def match_here_def tag_def classify_def
  attr_entry_def attachment_segment_def rest_data_def entries_brief_def text_segment_def
  obj_get_def to_string_opt_def obj_set_def array_index_def decimal_def spread_def
  fromEntries_def toLowerCase_def ascii_lower_def
  trimQuote_def shorthand_def is_lower_def is_digit_def attr_string_def Let_def

lemma scan_loop_no_match:
  "regex_match c = None \<Longrightarrow> scan_loop lc tq ms c result brief = Inr (c, result, brief)"
  by (subst scan_loop.simps) simp

subsection \<open>Facts about the string and object operations\<close>

lemma split_not_Nil [simp]: "split s c \<noteq> []"
  by (induction s) (auto split: list.splits)

lemma split_head: "\<exists>ps. split s c = takeWhile (\<lambda>x. x \<noteq> c) s # ps"
  by (induction s) (auto split: list.splits)


lemma split_no_sep: "c \<notin> set s \<Longrightarrow> split s c = [s]"
  by (induction s) auto

lemma split_append_sep: "c \<notin> set k \<Longrightarrow> split (k @ c # r) c = k # split r c"
  by (induction k) auto

lemma split_join:
  "xs \<noteq> [] \<Longrightarrow> \<forall>x\<in>set xs. c \<notin> set x \<Longrightarrow> split (join [c] xs) c = xs"
proof (induction xs)
  case Nil then show ?case by simp
next
  case (Cons x xs)
  show ?case
  proof (cases xs)
    case Nil with Cons.prems show ?thesis by (simp add: split_no_sep)
  next
    case (Cons y ys)
    with Cons.IH Cons.prems have "split (join [c] (y # ys)) c = y # ys" by simp
    with Cons Cons.prems show ?thesis by (simp add: split_append_sep)
  qed
qed

lemma map_of_obj_update:
  "map_of ob k = Some old \<Longrightarrow> map_of (obj_update k v ob) = (map_of ob)(k \<mapsto> v)"
  by (induction ob) (auto simp: fun_eq_iff)

lemma map_of_obj_insert_index:
  "map_of ob k = None \<Longrightarrow> map_of (obj_insert_index n k v ob) = (map_of ob)(k \<mapsto> v)"
  by (induction ob) (auto simp: fun_eq_iff split: option.splits if_splits)

lemma map_of_obj_append:
  "map_of ob k = None \<Longrightarrow> map_of (ob @ [(k, v)]) = (map_of ob)(k \<mapsto> v)"
  by (auto simp: fun_eq_iff map_add_def split: option.splits)

lemma map_of_obj_set: "map_of (obj_set k v ob) = (map_of ob)(k \<mapsto> v)"
  by (simp add: obj_set_def map_of_obj_update map_of_obj_insert_index map_of_obj_append
        del: map_of_append split: option.splits)

lemma obj_get_obj_set: "obj_get (obj_set k v ob) k' = (if k' = k then Some v else obj_get ob k')"
  by (simp add: obj_get_def map_of_obj_set)





lemma attachments_loop_eq:
  "attachments_loop atts result brief =
     (case map_err attachment_segment atts of
        Inl e \<Rightarrow> Inl e
      | Inr sbs \<Rightarrow> Inr (result @ map fst sbs, brief @ concat (map snd sbs)))"
  by (induction atts arbitrary: result brief) (auto split: sum.splits)

subsection \<open>The loops and their accumulators\<close>

lemma scan_loop_step:
  assumes "regex_match t = Some m"
  shows "scan_loop lc tq ms t result brief =
    (let pre = slice t 0 (indexOf t m);
         t1 = slice_from t (indexOf t m + int (length m));
         result1 = result @ (if pre \<noteq> [] then [text_segment pre] else []);
         brief1 = brief @ pre
     in if startsWith m (js ''<'') then
          (case tag lc tq ms (slice m 1 (- 1)) of
             Inl e \<Rightarrow> Inl e
           | Inr (seg, b) \<Rightarrow> scan_loop lc tq ms t1 (result1 @ [seg]) (brief1 @ b))
        else scan_loop lc tq ms t1 (result1 @ [text_segment m]) (brief1 @ m))"
proof -
  from assms have "t \<noteq> []" by auto
  with assms show ?thesis
    by (subst scan_loop.simps) (auto simp: Let_def split: sum.splits)
qed

lemma scan_loop_acc:
  "scan_loop lc tq ms t result brief =
     (case scan_loop lc tq ms t [] [] of
        Inl e \<Rightarrow> Inl e
      | Inr (t', r, b) \<Rightarrow> Inr (t', result @ r, brief @ b))"
proof (induction t arbitrary: result brief rule: length_induct)
  case (1 t)
  show ?case
  proof (cases "regex_match t")
    case None
    then show ?thesis by (simp add: scan_loop_no_match)
  next
    case (Some m)
    define t1 where "t1 = slice_from t (indexOf t m + int (length m))"
    have shorter: "length t1 < length t"
      unfolding t1_def using Some by (rule loop_advances)
    have IH: "scan_loop lc tq ms t1 r b =
       (case scan_loop lc tq ms t1 [] [] of
          Inl e \<Rightarrow> Inl e
        | Inr (t', r', b') \<Rightarrow> Inr (t', r @ r', b @ b'))" for r b
      using 1 shorter by blast
    show ?thesis
      apply (simp only: scan_loop_step [OF Some] Let_def t1_def [symmetric])
      apply (subst IH)
      apply (subst (2) IH)
      apply (subst (3) IH)
      apply (subst (4) IH)
      apply (simp split: sum.splits prod.splits)
      done
  qed
qed


subsection \<open>Where the match lies in the template\<close>

lemma takeWhile_sep_prefix:
  "c \<in> set xs \<Longrightarrow> \<exists>post. xs = takeWhile (\<lambda>y. y \<noteq> c) xs @ c # post"
  by (induction xs) auto

lemma quoted_prefix: "quoted opn cls s = Some m \<Longrightarrow> \<exists>post. s = m @ post"
  by (cases s) (auto split: if_splits dest: takeWhile_sep_prefix)

lemma bracket_prefix: "bracket s = Some m \<Longrightarrow> \<exists>post. s = m @ post"
  by (induction s rule: bracket.induct) (auto split: if_splits dest: takeWhile_sep_prefix)

lemma match_here_prefix: "match_here s = Some m \<Longrightarrow> \<exists>post. s = m @ post"
  unfolding match_here_def
  by (auto split: option.splits dest: quoted_prefix bracket_prefix)

lemma regex_match_occurs: "regex_match s = Some m \<Longrightarrow> \<exists>pre post. s = pre @ m @ post"
proof (induction s)
  case Nil then show ?case by simp
next
  case (Cons x s)
  show ?case
  proof (cases "match_here (x # s)")
    case None
    with Cons obtain pre post where "s = pre @ m @ post" by auto
    then have "x # s = (x # pre) @ m @ post" by simp
    then show ?thesis by blast
  next
    case (Some m')
    with Cons.prems have "m' = m" by simp
    with Some obtain post where "x # s = [] @ m @ post" by (auto dest: match_here_prefix)
    then show ?thesis by blast
  qed
qed

lemma startsWith_append [simp]: "startsWith (m @ post) m"
  by (simp add: startsWith_def)

lemma startsWith_iff: "startsWith s m \<longleftrightarrow> (\<exists>post. s = m @ post)"
  unfolding startsWith_def by (metis append_eq_conv_conj)

lemma indexOf_startsWith: "startsWith s m \<Longrightarrow> indexOf s m = 0"
  by (cases s) (auto simp: startsWith_def)

lemma indexOf_found: "0 \<le> indexOf (pre @ m @ post) m"
proof (induction pre)
  case Nil show ?case by (simp add: indexOf_startsWith)
next
  case (Cons x pre) then show ?case by (simp add: Let_def)
qed

lemma indexOf_split:
  "0 \<le> indexOf s m \<Longrightarrow> s = take (nat (indexOf s m)) s @ m @ drop (nat (indexOf s m) + length m) s"
proof (induction s)
  case Nil then show ?case by (simp split: if_splits)
next
  case (Cons x s)
  show ?case
  proof (cases "startsWith (x # s) m")
    case True
    then show ?thesis by (auto simp: startsWith_iff)
  next
    case False
    with Cons.prems have nn: "0 \<le> indexOf s m" by (simp add: Let_def split: if_splits)
    with False have idx: "indexOf (x # s) m = indexOf s m + 1" by (simp add: Let_def)
    from nn have "nat (indexOf s m + 1) = Suc (nat (indexOf s m))" by simp
    with Cons.IH [OF nn] idx show ?thesis by simp
  qed
qed

lemma slice_prefix: "0 \<le> i \<Longrightarrow> slice s 0 i = take (nat i) s"
  by (auto simp: slice_def Let_def min_def)

lemma slice_from_drop: "0 \<le> k \<Longrightarrow> slice_from s k = drop (nat k) s"
  by (auto simp: slice_from_def slice_def Let_def min_def)

lemma regex_match_split:
  assumes "regex_match t = Some m"
  shows "t = slice t 0 (indexOf t m) @ m @ slice_from t (indexOf t m + int (length m))"
proof -
  from regex_match_occurs [OF assms] have found: "0 \<le> indexOf t m"
    by (auto simp: indexOf_found)
  then have "nat (indexOf t m + int (length m)) = nat (indexOf t m) + length m" by simp
  with indexOf_split [OF found] found show ?thesis
    by (simp add: slice_prefix slice_from_drop)
qed

lemma quoted_head: "quoted opn cls s = Some m \<Longrightarrow> hd m = opn"
  by (cases s) (auto split: if_splits)

lemma bracket_form:
  "bracket s = Some m \<Longrightarrow> \<exists>inner. m = LANGLE # inner @ [RANGLE] \<and> inner \<noteq> [] \<and> RANGLE \<notin> set inner"
  by (induction s rule: bracket.induct) (auto split: if_splits dest: set_takeWhileD)

lemma startsWith_langle: "startsWith m (js ''<'') \<longleftrightarrow> (\<exists>r. m = LANGLE # r)"
  by (cases m) (auto simp: startsWith_def js_def)

lemma match_here_tag:
  "match_here s = Some m \<Longrightarrow> startsWith m (js ''<'') \<Longrightarrow>
     \<exists>inner. m = LANGLE # inner @ [RANGLE] \<and> inner \<noteq> [] \<and> RANGLE \<notin> set inner"
  unfolding match_here_def
  by (auto split: option.splits dest!: quoted_head bracket_form simp: startsWith_langle)

lemma regex_match_tag:
  "regex_match s = Some m \<Longrightarrow> startsWith m (js ''<'') \<Longrightarrow>
     \<exists>inner. m = LANGLE # inner @ [RANGLE] \<and> inner \<noteq> [] \<and> RANGLE \<notin> set inner"
  by (induction s) (auto split: option.splits dest: match_here_tag)

lemma slice_inner: "slice (x # inner @ [y]) 1 (- 1) = inner"
  by (simp add: slice_def Let_def)

subsection \<open>The scanner, piece by piece\<close>

lemma scan_loop_unfold:
  assumes "regex_match t = Some m"
  shows "scan_loop lc tq ms t [] [] =
    (let pre = slice t 0 (indexOf t m);
         t1 = slice_from t (indexOf t m + int (length m))
     in case match_out lc tq ms m of
          Inl e \<Rightarrow> Inl e
        | Inr (seg, bp) \<Rightarrow>
            (case scan_loop lc tq ms t1 [] [] of
               Inl e \<Rightarrow> Inl e
             | Inr (t', r, b) \<Rightarrow>
                 Inr (t', (if pre \<noteq> [] then [text_segment pre] else []) @ seg # r, pre @ bp @ b)))"
  apply (simp only: scan_loop_step [OF assms] Let_def match_out_def)
  apply (subst scan_loop_acc)
  apply (subst (2) scan_loop_acc)
  apply (simp split: sum.splits prod.splits)
  done

lemma emits_match:
  assumes "regex_match t = Some m" and "match_out lc tq ms m = Inr out"
  shows "emits lc tq ms m out"
proof (cases "startsWith m (js ''<'')")
  case True
  from regex_match_tag [OF assms(1) True] obtain inner where "m = LANGLE # inner @ [RANGLE]"
    by blast
  then have "endsWith m (js ''>'')" by (simp add: endsWith_def js_def)
  with True assms(2) show ?thesis by (simp add: emits_def match_out_def)
next
  case False
  with assms(2) show ?thesis by (auto simp: emits_def match_out_def)
qed

lemma scan_loop_pieces:
  "scan_loop lc tq ms t [] [] = Inr (t', r, b) \<Longrightarrow>
     \<exists>pieces outs. t = concat pieces @ t' \<and> [] \<notin> set pieces \<and>
        list_all2 (emits lc tq ms) pieces outs \<and>
        r = map fst outs \<and> b = concat (map snd outs) \<and> regex_match t' = None"
proof (induction t arbitrary: r b rule: length_induct)
  case (1 t)
  show ?case
  proof (cases "regex_match t")
    case None
    with "1.prems" have "t' = t" "r = []" "b = []" by (simp_all add: scan_loop_no_match)
    with None show ?thesis by (intro exI [of _ "[]"]) simp
  next
    case (Some m)
    define pre where "pre = slice t 0 (indexOf t m)"
    define t1 where "t1 = slice_from t (indexOf t m + int (length m))"
    have t: "t = pre @ m @ t1"
      unfolding pre_def t1_def using Some by (rule regex_match_split)
    have shorter: "length t1 < length t"
      unfolding t1_def using Some by (rule loop_advances)
    have nonempty: "m \<noteq> []"
      using regex_match_length [OF Some] by auto
    from "1.prems" obtain out r1 b1 where
      out: "match_out lc tq ms m = Inr out" and
      rest: "scan_loop lc tq ms t1 [] [] = Inr (t', r1, b1)" and
      r: "r = (if pre \<noteq> [] then [text_segment pre] else []) @ fst out # r1" and
      b: "b = pre @ snd out @ b1"
      by (auto simp: scan_loop_unfold [OF Some] Let_def pre_def t1_def
               split: sum.splits prod.splits)
    from "1.IH" shorter rest obtain pieces outs where
      IH: "t1 = concat pieces @ t'" "[] \<notin> set pieces" "list_all2 (emits lc tq ms) pieces outs"
        "r1 = map fst outs" "b1 = concat (map snd outs)" "regex_match t' = None"
      by blast
    have m: "emits lc tq ms m out" using Some out by (rule emits_match)
    show ?thesis
    proof (cases "pre = []")
      case True
      with t r b IH m nonempty show ?thesis
        by (intro exI [of _ "m # pieces"] exI [of _ "out # outs"]) simp
    next
      case False
      have "emits lc tq ms pre (text_segment pre, pre)" by (simp add: emits_def)
      with False t r b IH m nonempty show ?thesis
        by (intro exI [of _ "pre # m # pieces"] exI [of _ "(text_segment pre, pre) # out # outs"])
           simp
    qed
  qed
qed

subsection \<open>The two steps of \<open>Message.parse\<close>\<close>

lemma map_err_list_all2: "map_err f xs = Inr ys \<Longrightarrow> list_all2 (\<lambda>x y. f x = Inr y) xs ys"
proof (induction xs arbitrary: ys)
  case Nil then show ?case by simp
next
  case (Cons x xs)
  then show ?case by (auto split: sum.splits)
qed

lemma parse_returns:
  assumes "parse lc tq p = Inr ((segs, brief), p')"
  shows "\<exists>scanned sb attached.
           scanner lc tq (mentions p) (content_of p) = Inr (scanned, sb) \<and>
           list_all2 (\<lambda>a out. attachment_segment a = Inr out) (attachments_of p) attached \<and>
           segs = scanned @ map fst attached \<and> brief = sb @ concat (map snd attached)"
proof -
  from assms obtain scanned sb where
    sc: "scanner lc tq (mentions p) (content_of p) = Inr (scanned, sb)"
    by (auto simp: parse_def content_of_def Let_def split: sum.splits)
  show ?thesis
  proof (cases "attachments p")
    case None
    with assms sc have "segs = scanned" "brief = sb"
      by (auto simp: parse_def content_of_def Let_def split: sum.splits)
    with sc None show ?thesis
      by (intro exI [of _ scanned] exI [of _ sb] exI [of _ "[]"]) (simp add: attachments_of_def)
  next
    case (Some atts)
    with assms sc obtain attached where
      att: "map_err attachment_segment atts = Inr attached" and
      "segs = scanned @ map fst attached" "brief = sb @ concat (map snd attached)"
      by (auto simp: parse_def content_of_def Let_def attachments_loop_eq split: sum.splits)
    with sc Some map_err_list_all2 [OF att] show ?thesis
      by (intro exI [of _ scanned] exI [of _ sb] exI [of _ attached]) (simp add: attachments_of_def)
  qed
qed

lemma scanner_pieces:
  assumes "scanner lc tq ms t = Inr (scanned, sb)"
  shows "\<exists>pieces outs. t = concat pieces \<and> [] \<notin> set pieces \<and> list_all2 (emits lc tq ms) pieces outs \<and>
           scanned = map fst outs \<and> sb = concat (map snd outs)"
proof -
  from assms obtain t' r b where
    loop: "scan_loop lc tq ms t [] [] = Inr (t', r, b)" and
    scanned: "scanned = (if t' \<noteq> [] then r @ [text_segment t'] else r)" and
    sb: "sb = b @ t'"
    by (auto simp: scanner_def split: sum.splits if_splits)
  from scan_loop_pieces [OF loop] obtain pieces outs where
    ps: "t = concat pieces @ t'" "[] \<notin> set pieces" "list_all2 (emits lc tq ms) pieces outs"
      "r = map fst outs" "b = concat (map snd outs)"
    by blast
  show ?thesis
  proof (cases "t' = []")
    case True
    with ps scanned sb show ?thesis
      by (intro exI [of _ pieces] exI [of _ outs]) simp
  next
    case False
    have "emits lc tq ms t' (text_segment t', t')" by (simp add: emits_def)
    with False ps scanned sb show ?thesis
      by (intro exI [of _ "pieces @ [t']"] exI [of _ "outs @ [(text_segment t', t')]"])
         (simp add: list_all2_appendI)
  qed
qed

subsection \<open>The segment of an attachment\<close>

lemma attachment_segment_Inr:
  assumes "attachment_segment a = Inr (seg, b)"
  shows "\<exists>ct. obj_get a (js ''content_type'') = Some (JStr ct) \<and>
           seg = obj_set (js ''url'') (JStr (js ''https://'' @ to_string_opt (obj_get (rest_data a) (js ''url''))))
                  (obj_set (js ''src'') (JStr (js ''https://'' @ to_string_opt (obj_get (rest_data a) (js ''src''))))
                    (spread [(js ''type'', JStr (takeWhile (\<lambda>x. x \<noteq> SLASH) ct))] (rest_data a))) \<and>
           b = entries_brief (takeWhile (\<lambda>x. x \<noteq> SLASH) ct) (rest_data a)"
proof -
  from assms obtain ct where ct: "obj_get a (js ''content_type'') = Some (JStr ct)"
    by (auto simp: attachment_segment_def Let_def split: option.splits jsval.splits)
  obtain ps where "split ct SLASH = takeWhile (\<lambda>x. x \<noteq> SLASH) ct # ps"
    using split_head by blast
  with assms ct show ?thesis
    by (auto simp: attachment_segment_def Let_def)
qed

lemma obj_get_rest_data:
  "obj_get (rest_data a) k = (if k = js ''content_type'' then None else obj_get a k)"
  unfolding obj_get_def rest_data_def
  by (induction a) auto




lemma attachment_segment_brief:
  assumes "attachment_segment a = Inr out"
  shows "\<exists>ct. obj_get a (js ''content_type'') = Some (JStr ct) \<and>
     snd out = js ''<'' @ takeWhile (\<lambda>x. x \<noteq> SLASH) ct @ js '','' @
       join [COMMA] (map (\<lambda>(key, v). key @ js ''='' @ to_string v) (rest_data a)) @ js ''>'' \<and>
     obj_get (fst out) (js ''src'') = Some (JStr (js ''https://'' @ to_string_opt (obj_get a (js ''src'')))) \<and>
     obj_get (fst out) (js ''url'') = Some (JStr (js ''https://'' @ to_string_opt (obj_get a (js ''url''))))"
proof -
  from assms have "attachment_segment a = Inr (fst out, snd out)" by simp
  from attachment_segment_Inr [OF this] obtain ct where
    ct: "obj_get a (js ''content_type'') = Some (JStr ct)" and
    seg: "fst out = obj_set (js ''url'') (JStr (js ''https://'' @ to_string_opt (obj_get (rest_data a) (js ''url''))))
                  (obj_set (js ''src'') (JStr (js ''https://'' @ to_string_opt (obj_get (rest_data a) (js ''src''))))
                    (spread [(js ''type'', JStr (takeWhile (\<lambda>x. x \<noteq> SLASH) ct))] (rest_data a)))" and
    b: "snd out = entries_brief (takeWhile (\<lambda>x. x \<noteq> SLASH) ct) (rest_data a)"
    by blast
  have neq: "js ''src'' \<noteq> js ''url''" "js ''src'' \<noteq> js ''content_type''"
    "js ''url'' \<noteq> js ''content_type''"
    by (simp_all add: js_def)
  from ct b neq show ?thesis
    by (intro exI [of _ ct]) (simp add: seg entries_brief_def obj_get_obj_set obj_get_rest_data)
qed



subsection \<open>A content that starts with a bracket tag\<close>

lemma takeWhile_until_sep: "c \<notin> set xs \<Longrightarrow> takeWhile (\<lambda>z. z \<noteq> c) (xs @ c # r) = xs"
  by (induction xs) auto

lemma match_here_leading_tag:
  assumes "inner \<noteq> []" and "RANGLE \<notin> set inner"
  shows "match_here (LANGLE # inner @ RANGLE # rest) = Some (LANGLE # inner @ [RANGLE])"
proof -
  from assms obtain y ys where inner: "inner = y # ys" by (cases inner) auto
  with assms(2) have "takeWhile (\<lambda>z. z \<noteq> RANGLE) (ys @ RANGLE # rest) = ys"
    by (simp add: takeWhile_until_sep)
  with inner assms(2) show ?thesis by (simp add: match_here_def)
qed

lemma regex_match_leading_tag:
  "inner \<noteq> [] \<Longrightarrow> RANGLE \<notin> set inner \<Longrightarrow>
     regex_match (LANGLE # inner @ RANGLE # rest) = Some (LANGLE # inner @ [RANGLE])"
  by (simp add: match_here_leading_tag)

lemma scanner_empty: "scanner lc tq ms [] = Inr ([], [])"
  by (simp add: scanner_def scan_loop.simps)

lemma scanner_leading_tag:
  assumes "inner \<noteq> []" and "RANGLE \<notin> set inner"
  shows "scanner lc tq ms (LANGLE # inner @ RANGLE # rest) =
    (case tag lc tq ms inner of
       Inl e \<Rightarrow> Inl e
     | Inr (seg, b) \<Rightarrow>
         (case scanner lc tq ms rest of
            Inl e \<Rightarrow> Inl e
          | Inr (segs, br) \<Rightarrow> Inr (seg # segs, b @ br)))"
proof -
  let ?m = "LANGLE # inner @ [RANGLE]"
  let ?t = "LANGLE # inner @ RANGLE # rest"
  have rm: "regex_match ?t = Some ?m" using assms by (rule regex_match_leading_tag)
  have "startsWith ?t ?m" by (simp add: startsWith_def)
  then have idx: "indexOf ?t ?m = 0" by (rule indexOf_startsWith)
  have pre: "slice ?t 0 0 = []" by (simp add: slice_def)
  have "drop (length ?m) ?t = rest" by simp
  then have rest: "slice_from ?t (0 + int (length ?m)) = rest"
    by (simp only: slice_from_drop add_0 of_nat_0_le_iff nat_int)
  have out: "match_out lc tq ms ?m = tag lc tq ms inner"
    using slice_inner [of LANGLE inner RANGLE] by (simp add: match_out_def startsWith_langle)
  show ?thesis
    unfolding scanner_def scan_loop_unfold [OF rm] idx pre rest out Let_def
    by (simp split: sum.splits prod.splits)
qed

lemma scanner_single_tag:
  assumes "inner \<noteq> []" and "RANGLE \<notin> set inner"
  shows "scanner lc tq ms (LANGLE # inner @ [RANGLE]) =
    (case tag lc tq ms inner of Inl e \<Rightarrow> Inl e | Inr (seg, b) \<Rightarrow> Inr ([seg], b))"
  using scanner_leading_tag [OF assms, of lc tq ms "[]"]
  by (simp add: scanner_empty split: sum.splits)

lemma parse_no_attachments:
  assumes "attachments p = None \<or> attachments p = Some []"
  shows "parse lc tq p =
    (case scanner lc tq (mentions p) (content_of p) of
       Inl e \<Rightarrow> Inl e
     | Inr out \<Rightarrow> Inr (out, p\<lparr>attachments := None, mentions := None\<rparr>))"
  using assms by (auto simp: parse_def split: sum.splits)

lemma tag_no_attrs:
  assumes "split inner COMMA = type0 # attrs0" and "classify ms type0 attrs0 = Inr (type, [])"
  shows "tag lc tq ms inner = Inr ([(js ''type'', JStr type)], js ''<'' @ type @ js '',>'')"
  using assms by (simp add: tag_def spread_def fromEntries_def js_def)

subsection \<open>The mention tag\<close>






subsection \<open>Reading the brief form of a tag back\<close>

lemma split_pieces: "p \<in> set (split s c) \<Longrightarrow> c \<notin> set p \<and> set p \<subseteq> set s"
proof (induction s arbitrary: p)
  case Nil then show ?case by simp
next
  case (Cons x s)
  obtain q qs where q: "split s c = q # qs" by (cases "split s c") auto
  show ?case
  proof (cases "x = c")
    case True
    with Cons.prems have "p = [] \<or> p \<in> set (split s c)" by auto
    with Cons.IH show ?thesis by auto
  next
    case False
    with Cons.prems q have "p = x # q \<or> p \<in> set qs" by auto
    then show ?thesis
    proof
      assume "p = x # q"
      moreover have "c \<notin> set q \<and> set q \<subseteq> set s" using Cons.IH [of q] q by simp
      ultimately show ?thesis using False by auto
    next
      assume "p \<in> set qs"
      then have "p \<in> set (split s c)" using q by simp
      with Cons.IH show ?thesis by auto
    qed
  qed
qed

lemma set_join: "set (join [c] xs) \<subseteq> insert c (\<Union> (set ` set xs))"
  by (induction "[c]" xs rule: join.induct) auto

lemma plain_tokens:
  "list_all plain_token attrs \<Longrightarrow>
     \<exists>strs. attrs = map AStr strs \<and> (\<forall>s\<in>set strs. COMMA \<notin> set s \<and> RANGLE \<notin> set s)"
proof (induction attrs)
  case Nil then show ?case by simp
next
  case (Cons a attrs)
  then obtain strs where strs: "attrs = map AStr strs"
    and plain: "\<forall>s\<in>set strs. COMMA \<notin> set s \<and> RANGLE \<notin> set s" by auto
  from Cons.prems obtain s where s: "a = AStr s" "COMMA \<notin> set s" "RANGLE \<notin> set s"
    by (cases a) (auto simp: plain_token_def)
  with strs plain show ?case by (intro exI [of _ "s # strs"]) simp
qed

lemma map_err_AStr: "\<exists>es. map_err (attr_entry lc tq) (map AStr strs) = Inr es"
proof (induction strs)
  case Nil show ?case by simp
next
  case (Cons s strs)
  obtain k vs where "split s EQUALS = k # vs" by (cases "split s EQUALS") auto
  then have "\<exists>e. attr_entry lc tq (AStr s) = Inr e" by (simp add: attr_entry_def)
  with Cons show ?case by auto
qed

lemma map_attr_string_AStr: "map attr_string (map AStr strs) = strs"
  by (induction strs) (auto simp: attr_string_def)

text \<open>A type that came out of the classification is classified as itself.\<close>

lemma classify_type_fixed:
  assumes "classify ms type0 attrs0 = Inr (type, attrs)"
    and "COMMA \<notin> set type0" and "RANGLE \<notin> set type0"
  shows "COMMA \<notin> set type \<and> RANGLE \<notin> set type \<and>
         (\<forall>ms' strs. classify ms' type strs = Inr (type, map AStr strs))"
proof -
  have face_fixed: "classify ms' (js ''face'') strs = Inr (js ''face'', map AStr strs)" for ms' strs
    by (simp add: classify_def startsWith_def shorthand_def is_lower_def js_def)
  have at_fixed: "classify ms' (js ''at'') strs = Inr (js ''at'', map AStr strs)" for ms' strs
    by (simp add: classify_def startsWith_def shorthand_def is_lower_def js_def)
  have chars: "COMMA \<notin> set (js ''face'')" "RANGLE \<notin> set (js ''face'')"
    "COMMA \<notin> set (js ''at'')" "RANGLE \<notin> set (js ''at'')"
    by (simp_all add: js_def)
  consider (face) "type = js ''face''" | (at) "type = js ''at''"
    | (same) "type = type0" "\<not> startsWith type0 (js ''faceType'')"
        "startsWith type0 (js ''@'') \<longrightarrow> \<not> startsWith type0 (js ''@!'') \<and> type0 \<noteq> js ''@everyone''"
        "\<not> startsWith type0 (js ''@'') \<longrightarrow> \<not> shorthand type0"
    using assms(1) by (auto simp: classify_def Let_def split: if_splits option.splits)
  then show ?thesis
  proof cases
    case face with face_fixed chars show ?thesis by simp
  next
    case at with at_fixed chars show ?thesis by simp
  next
    case same
    then have "classify ms' type0 strs = Inr (type0, map AStr strs)" for ms' strs
      by (auto simp: classify_def)
    with same(1) assms(2,3) show ?thesis by simp
  qed
qed


lemma tag_stable:
  assumes "stable_tag ms inner"
  shows "\<exists>seg inner'. tag lc tq ms inner = Inr (seg, LANGLE # inner' @ [RANGLE]) \<and>
           inner' \<noteq> [] \<and> RANGLE \<notin> set inner' \<and>
           (\<forall>ms'. tag lc tq ms' inner' = Inr (seg, LANGLE # inner' @ [RANGLE]))"
proof -
  from assms obtain type0 attrs0 type attrs where
    sp: "split inner COMMA = type0 # attrs0" and
    cl: "classify ms type0 attrs0 = Inr (type, attrs)" and
    ne: "attrs \<noteq> []" and pl: "list_all plain_token attrs" and
    inner: "RANGLE \<notin> set inner"
    by (auto simp: stable_tag_def split: list.splits sum.splits)
  from plain_tokens [OF pl] obtain strs where
    strs: "attrs = map AStr strs" and
    plain: "\<forall>s\<in>set strs. COMMA \<notin> set s \<and> RANGLE \<notin> set s"
    by blast
  from ne strs have strs_ne: "strs \<noteq> []" by auto
  have "type0 \<in> set (split inner COMMA)" using sp by simp
  from split_pieces [OF this] inner have "COMMA \<notin> set type0" "RANGLE \<notin> set type0" by auto
  from classify_type_fixed [OF cl this] have
    ty: "COMMA \<notin> set type" "RANGLE \<notin> set type" and
    fixed: "classify ms' type strs' = Inr (type, map AStr strs')" for ms' strs'
    by auto
  obtain es where es: "map_err (attr_entry lc tq) (map AStr strs) = Inr es"
    using map_err_AStr by blast
  define inner' where "inner' = type @ COMMA # join [COMMA] strs"
  define seg where "seg = spread [(js ''type'', JStr type)] (fromEntries es)"
  have form: "js ''<'' @ type @ js '','' @ join [COMMA] strs @ js ''>'' = LANGLE # inner' @ [RANGLE]"
    by (simp add: js_def inner'_def)
  have first: "tag lc tq ms inner = Inr (seg, LANGLE # inner' @ [RANGLE])"
    by (simp add: tag_def sp cl strs es map_attr_string_AStr form seg_def del: map_map)
  have "split (join [COMMA] strs) COMMA = strs"
    using strs_ne plain by (intro split_join) auto
  with ty(1) have sp': "split inner' COMMA = type # strs"
    by (simp add: inner'_def split_append_sep)
  have again: "tag lc tq ms' inner' = Inr (seg, LANGLE # inner' @ [RANGLE])" for ms'
    by (simp add: tag_def sp' fixed es map_attr_string_AStr form seg_def del: map_map)
  have "set (join [COMMA] strs) \<subseteq> insert COMMA (\<Union> (set ` set strs))" by (rule set_join)
  with plain have "RANGLE \<notin> set (join [COMMA] strs)" by auto
  with ty(2) have "RANGLE \<notin> set inner'" by (simp add: inner'_def)
  moreover have "inner' \<noteq> []" by (simp add: inner'_def)
  ultimately show ?thesis using first again by blast
qed

lemma bracket_tags_Cons:
  "bracket_tags (inner # inners) = LANGLE # inner @ RANGLE # bracket_tags inners"
  by (simp add: bracket_tags_def)

lemma scanner_stable_tags:
  assumes "list_all (stable_tag ms) inners"
  shows "\<exists>segs inners'. scanner lc tq ms (bracket_tags inners) = Inr (segs, bracket_tags inners') \<and>
           (\<forall>ms'. scanner lc tq ms' (bracket_tags inners') = Inr (segs, bracket_tags inners'))"
  using assms
proof (induction inners)
  case Nil
  have "scanner lc tq ms' (bracket_tags []) = Inr ([], bracket_tags [])" for ms'
    by (simp add: bracket_tags_def scanner_empty)
  then show ?case by blast
next
  case (Cons inner inners)
  then obtain segs inners' where
    IH: "scanner lc tq ms (bracket_tags inners) = Inr (segs, bracket_tags inners')"
      "\<And>ms'. scanner lc tq ms' (bracket_tags inners') = Inr (segs, bracket_tags inners')"
    by auto
  from Cons.prems have st: "stable_tag ms inner" by simp
  then have inner: "inner \<noteq> []" "RANGLE \<notin> set inner" by (simp_all add: stable_tag_def)
  from tag_stable [OF st] obtain seg inner' where
    t: "tag lc tq ms inner = Inr (seg, LANGLE # inner' @ [RANGLE])" and
    inner': "inner' \<noteq> []" "RANGLE \<notin> set inner'" and
    t': "\<And>ms'. tag lc tq ms' inner' = Inr (seg, LANGLE # inner' @ [RANGLE])"
    by blast
  have first: "scanner lc tq ms (bracket_tags (inner # inners)) =
      Inr (seg # segs, bracket_tags (inner' # inners'))"
    by (simp add: bracket_tags_Cons scanner_leading_tag [OF inner] t IH(1))
  have again: "scanner lc tq ms' (bracket_tags (inner' # inners')) =
      Inr (seg # segs, bracket_tags (inner' # inners'))" for ms'
    by (simp add: bracket_tags_Cons scanner_leading_tag [OF inner'] t' IH(2))
  from first again show ?case by blast
qed

lemma set_replace: "set (replace s p r) \<subseteq> set s \<union> set r"
proof (induction s)
  case Nil show ?case by auto
next
  case (Cons x s)
  have "set (drop (length p) (x # s)) \<subseteq> set (x # s)" by (rule set_drop_subset)
  with Cons show ?case by auto
qed

lemma ordinary_tag_stable:
  assumes "RANGLE \<notin> set inner" and "split inner COMMA = type0 # attrs0" and "attrs0 \<noteq> []"
    and "\<not> startsWith type0 (js ''@!'')" and "type0 \<noteq> js ''@everyone''"
  shows "stable_tag ms inner"
proof -
  from assms(2,3) have ne: "inner \<noteq> []" by (cases inner) auto
  have pieces: "COMMA \<notin> set a \<and> RANGLE \<notin> set a" if "a \<in> set (type0 # attrs0)" for a
    using split_pieces [of a inner COMMA] that assms(1,2) by auto
  have plain0: "list_all plain_token (map AStr attrs0)"
    using pieces by (simp add: list_all_iff plain_token_def)
  have "set (replace a (js ''faceId'') (js ''id'')) \<subseteq> set a \<union> set (js ''id'')" for a
    by (rule set_replace)
  moreover have "COMMA \<notin> set (js ''id'')" "RANGLE \<notin> set (js ''id'')" by (simp_all add: js_def)
  ultimately have plain1:
    "list_all plain_token (map (\<lambda>a. AStr (replace a (js ''faceId'') (js ''id''))) attrs0)"
    using pieces by (fastforce simp: list_all_iff plain_token_def)
  have d: "COMMA \<notin> set d \<and> RANGLE \<notin> set d" if "split type0 COLON = x # d # rest" for x d rest
  proof -
    from that have "d \<in> set (split type0 COLON)" by simp
    from split_pieces [OF this] pieces [of type0] show ?thesis by auto
  qed
  have plain2: "plain_token (AStr (js ''id='' @ to_string_opt
      (case split type0 COLON of _ # d # _ \<Rightarrow> Some (JStr d) | _ \<Rightarrow> None)))"
    using d by (auto simp: plain_token_def to_string_opt_def js_def split: list.splits)
  from ne assms plain0 plain1 plain2 show ?thesis
    by (simp add: stable_tag_def classify_def)
qed

section \<open>Properties of \<open>Message.parse\<close> and of the guild event\<close>

text \<open>
  C1. The claim: for a template that contains the tag \<open><@everyone>\<close>, \<open>Message.parse\<close> does
  not throw and produces the segment \<open>{type: "at", all: true}\<close>. The code assigns
  \<open>attrs = [['all', true]]\<close> and then calls \<open>attr.split('=')\<close> on the inner array, which
  has no such method: on every payload whose content starts with \<open><@everyone>\<close>, whatever
  follows the tag and whatever the other fields are, \<open>Message.parse\<close> raises a TypeError
  and returns nothing.
\<close>

theorem parse_everyone_raises:
  "parse lc tq \<lparr>content = Some (js ''<@everyone>'' @ rest), attachments = atts, mentions = ms,
             other = ob\<rparr>
     = Inl TypeError"
proof -
  have "tag lc tq ms (js ''@everyone'') = Inl TypeError"
    by (simp add: tag_def classify_def attr_entry_def startsWith_def js_def)
  moreover have "js ''<@everyone>'' @ rest = LANGLE # js ''@everyone'' @ RANGLE # rest"
    "js ''@everyone'' \<noteq> []" "RANGLE \<notin> set (js ''@everyone'')"
    by (simp_all add: js_def)
  ultimately show ?thesis
    by (simp add: parse_def content_of_def scanner_leading_tag)
qed

text \<open>
  C2. The claim: \<open>Message.parse\<close> never raises when \<open>attachments\<close> or \<open>mentions\<close> is missing
  or empty, whatever the content, also when the content has an \<open>@!\<close> mention tag. The
  loop over the attachments is guarded by \<open>if (payload.attachments)\<close>; the mention lookup
  \<open>payload.mentions.find(...)\<close> has no such guard. On every payload whose content starts
  with \<open><@!1>\<close> and whose \<open>mentions\<close> field is missing, \<open>Message.parse\<close> raises a
  TypeError.
\<close>

theorem parse_mention_without_mentions_raises:
  "parse lc tq \<lparr>content = Some (js ''<@!1>'' @ rest), attachments = atts, mentions = None,
             other = ob\<rparr>
     = Inl TypeError"
proof -
  have "tag lc tq None (js ''@!1'') = Inl TypeError"
    by (simp add: tag_def classify_def startsWith_def js_def)
  moreover have "js ''<@!1>'' @ rest = LANGLE # js ''@!1'' @ RANGLE # rest"
    "js ''@!1'' \<noteq> []" "RANGLE \<notin> set (js ''@!1'')"
    by (simp_all add: js_def)
  ultimately show ?thesis
    by (simp add: parse_def content_of_def scanner_leading_tag)
qed

text \<open>
  C3. For a payload with no attachments (the field missing or the empty array) whose
  content \<open>c\<close> has no match of the scanner's regular expression, \<open>Message.parse\<close> returns
  the single text segment \<open>{type: "text", text: c}\<close> and the brief \<open>c\<close>; for the empty
  content it returns no segment and the empty brief.
\<close>

theorem parse_plain_text:
  assumes "content p = Some c" and "regex_match c = None"
    and "attachments p = None \<or> attachments p = Some []"
  shows "parse lc tq p =
           Inr ((if c = [] then []
                 else [[(js ''type'', JStr (js ''text'')), (js ''text'', JStr c)]],
                 c),
                p\<lparr>attachments := None, mentions := None\<rparr>)"
  using assms
  by (auto simp: parse_def content_of_def scanner_def scan_loop_no_match text_segment_def)

theorem parse_plain_text_witness:
  "parse id trimQuote \<lparr>content = Some (js ''hello, world''), attachments = None,
       mentions = None, other = []\<rparr>
     = Inr (([[(js ''type'', JStr (js ''text'')), (js ''text'', JStr (js ''hello, world''))]],
             js ''hello, world''),
            \<lparr>content = Some (js ''hello, world''), attachments = None,
               mentions = None, other = []\<rparr>) \<and>
   parse id trimQuote \<lparr>content = Some [], attachments = Some [], mentions = None, other = []\<rparr>
     = Inr (([], []),
            \<lparr>content = Some [], attachments = None, mentions = None, other = []\<rparr>)"
  using parse_plain_text [of "\<lparr>content = Some (js ''hello, world''), attachments = None,
       mentions = None, other = []\<rparr>" "js ''hello, world''" id trimQuote]
    parse_plain_text [of "\<lparr>content = Some [], attachments = Some [], mentions = None,
       other = []\<rparr>" "[]" id trimQuote]
  by (simp add: js_def match_here_def)

text \<open>
  C8. When \<open>bot.pickGuild(guild_id)\<close> raises, the accessor \<open>guild\<close> returns \<open>null\<close>, and
  when \<open>bot.pickChannel(channel_id)\<close> raises, the accessor \<open>channel\<close> returns \<open>null\<close>; the
  accessors have no exceptional result.
\<close>

theorem guild_channel_null_on_throw:
  "(pickGuild (bot ev) (guild_id ev) = Inl e \<longrightarrow> guild ev = None) \<and>
   (pickChannel (bot ev) (channel_id ev) = Inl e' \<longrightarrow> channel ev = None)"
  by (simp add: guild_def channel_def)

theorem guild_channel_null_on_throw_witness:
  "guild (\<lparr>bot = \<lparr>pickGuild = (\<lambda>i. Inl TypeError), pickChannel = (\<lambda>i. Inl TypeError)\<rparr>,
           guild_id = Some (js ''g1''), channel_id = Some (js ''c1''), message_id = js ''m1''\<rparr>
          :: (unit, unit, error) GuildMessageEvent) = None \<and>
   channel (\<lparr>bot = \<lparr>pickGuild = (\<lambda>i. Inl TypeError), pickChannel = (\<lambda>i. Inl TypeError)\<rparr>,
           guild_id = Some (js ''g1''), channel_id = Some (js ''c1''), message_id = js ''m1''\<rparr>
          :: (unit, unit, error) GuildMessageEvent) = None"
  using guild_channel_null_on_throw
    [of "\<lparr>bot = \<lparr>pickGuild = (\<lambda>i. Inl TypeError), pickChannel = (\<lambda>i. Inl TypeError)\<rparr>,
          guild_id = Some (js ''g1''), channel_id = Some (js ''c1''), message_id = js ''m1''\<rparr>
          :: (unit, unit, error) GuildMessageEvent"
        TypeError TypeError]
  by simp

text \<open>
  C9. When \<open>Message.parse\<close> returns, the fields \<open>attachments\<close> and \<open>mentions\<close> are absent
  from the payload, and every other field, \<open>content\<close> among them, is as it was.
\<close>

theorem parse_deletes_attachments_and_mentions:
  assumes "parse lc tq p = Inr (r, p')"
  shows "attachments p' = None \<and> mentions p' = None \<and> content p' = content p \<and>
         other p' = other p \<and> p' = p\<lparr>attachments := None, mentions := None\<rparr>"
  using assms by (auto simp: parse_def Let_def split: sum.splits prod.splits)

theorem parse_deletes_attachments_and_mentions_witness:
  "parse id trimQuote
     \<lparr>content = Some (js ''hi''),
        attachments = Some [[(js ''content_type'', JStr (js ''image/png'')),
                             (js ''url'', JStr (js ''cdn.x/a.png''))]],
        mentions = Some [[(js ''id'', JStr (js ''7''))]],
        other = [(js ''id'', JStr (js ''m1''))]\<rparr>
   = Inr (([text_segment (js ''hi''),
            [(js ''type'', JStr (js ''image'')),
             (js ''url'', JStr (js ''https://cdn.x/a.png'')),
             (js ''src'', JStr (js ''https://undefined''))]],
           js ''hi<image,url=cdn.x/a.png>''),
          \<lparr>content = Some (js ''hi''), attachments = None, mentions = None,
             other = [(js ''id'', JStr (js ''m1''))]\<rparr>)"
proof -
  have returned:
    "parse id trimQuote
       \<lparr>content = Some (js ''hi''),
          attachments = Some [[(js ''content_type'', JStr (js ''image/png'')),
                               (js ''url'', JStr (js ''cdn.x/a.png''))]],
          mentions = Some [[(js ''id'', JStr (js ''7''))]],
          other = [(js ''id'', JStr (js ''m1''))]\<rparr>
     = Inr (([text_segment (js ''hi''),
              [(js ''type'', JStr (js ''image'')),
               (js ''url'', JStr (js ''https://cdn.x/a.png'')),
               (js ''src'', JStr (js ''https://undefined''))]],
             js ''hi<image,url=cdn.x/a.png>''),
            \<lparr>content = Some (js ''hi''), attachments = None, mentions = None,
               other = [(js ''id'', JStr (js ''m1''))]\<rparr>)"
    by (simp add: eval_simps)
  from parse_deletes_attachments_and_mentions [OF returned] returned
  show ?thesis by simp
qed

text \<open>
  C6. When \<open>Message.parse\<close> returns, its segment list is the scanner's segments followed by
  the attachments' segments. The scanner's segments are in the order of their places in
  the content: the content is the concatenation, left to right, of non-empty pieces, one
  for each scanner segment in the order of the list, and the segment is what its piece
  yields (the piece itself as text, or the bracket tag it is). The attachments' segments
  are one for each attachment, in the order of the array.
\<close>

theorem segments_in_source_order:
  assumes "parse lc tq p = Inr ((segs, brief), p')"
  shows "\<exists>pieces scanned attached.
           concat pieces = content_of p \<and> [] \<notin> set pieces \<and>
           list_all2 (emits lc tq (mentions p)) pieces scanned \<and>
           list_all2 (\<lambda>a out. attachment_segment a = Inr out) (attachments_of p) attached \<and>
           segs = map fst scanned @ map fst attached"
proof -
  from parse_returns [OF assms] obtain scanned sb attached where
    sc: "scanner lc tq (mentions p) (content_of p) = Inr (scanned, sb)" and
    att: "list_all2 (\<lambda>a out. attachment_segment a = Inr out) (attachments_of p) attached" and
    segs: "segs = scanned @ map fst attached"
    by blast
  from scanner_pieces [OF sc] obtain pieces outs where
    "content_of p = concat pieces" "[] \<notin> set pieces"
    "list_all2 (emits lc tq (mentions p)) pieces outs" "scanned = map fst outs"
    by blast
  with att segs show ?thesis
    by (intro exI [of _ pieces] exI [of _ outs] exI [of _ attached]) simp
qed

theorem segments_in_source_order_witness:
  "\<exists>pieces scanned attached.
     concat pieces = js ''hi <faceType,faceId=7> \"q\"'' \<and> [] \<notin> set pieces \<and>
     list_all2 (emits id trimQuote None) pieces scanned \<and>
     list_all2 (\<lambda>a out. attachment_segment a = Inr out)
       [[(js ''content_type'', JStr (js ''image/png'')), (js ''url'', JStr (js ''cdn.x/a.png''))],
        [(js ''content_type'', JStr (js ''video/mp4'')), (js ''url'', JStr (js ''cdn.x/b.mp4''))]]
       attached \<and>
     [text_segment (js ''hi ''),
      [(js ''type'', JStr (js ''face'')), (js ''id'', JStr (js ''7''))],
      text_segment (js '' ''),
      text_segment (js ''\"q\"''),
      [(js ''type'', JStr (js ''image'')), (js ''url'', JStr (js ''https://cdn.x/a.png'')),
       (js ''src'', JStr (js ''https://undefined''))],
      [(js ''type'', JStr (js ''video'')), (js ''url'', JStr (js ''https://cdn.x/b.mp4'')),
       (js ''src'', JStr (js ''https://undefined''))]]
       = map fst scanned @ map fst attached"
proof -
  have returned:
    "parse id trimQuote
       \<lparr>content = Some (js ''hi <faceType,faceId=7> \"q\"''),
          attachments = Some
            [[(js ''content_type'', JStr (js ''image/png'')), (js ''url'', JStr (js ''cdn.x/a.png''))],
             [(js ''content_type'', JStr (js ''video/mp4'')), (js ''url'', JStr (js ''cdn.x/b.mp4''))]],
          mentions = None, other = []\<rparr>
     = Inr (([text_segment (js ''hi ''),
              [(js ''type'', JStr (js ''face'')), (js ''id'', JStr (js ''7''))],
              text_segment (js '' ''),
              text_segment (js ''\"q\"''),
              [(js ''type'', JStr (js ''image'')), (js ''url'', JStr (js ''https://cdn.x/a.png'')),
               (js ''src'', JStr (js ''https://undefined''))],
              [(js ''type'', JStr (js ''video'')), (js ''url'', JStr (js ''https://cdn.x/b.mp4'')),
               (js ''src'', JStr (js ''https://undefined''))]],
             js ''hi <face,id=7> \"q\"<image,url=cdn.x/a.png><video,url=cdn.x/b.mp4>''),
            \<lparr>content = Some (js ''hi <faceType,faceId=7> \"q\"''), attachments = None,
               mentions = None, other = []\<rparr>)"
    by (simp add: eval_simps)
  from segments_in_source_order [OF returned] show ?thesis
    by (simp add: content_of_def attachments_of_def)
qed




text \<open>
  C10. The claim: the text appended to \<open>brief\<close> for an attachment has the original
  \<open>src\<close> and \<open>url\<close>, without the \<open>https://\<close> prefix, and for every bracket tag with zero
  attributes the brief form is \<open><type,>\<close>, with a trailing comma. The second half fails
  for a tag written without attributes whose type is a shorthand: the classification
  of the type gives \<open><f:42>\<close> the attribute \<open>id=42\<close> before the brief is built, so its
  brief is \<open><face,id=42>\<close>, neither \<open><face,>\<close> nor \<open><f:42,>\<close>. (A resolved mention
  \<open><@!id>\<close>, written without attributes as well, gets the entries of the record in the
  same way.)
\<close>

theorem shorthand_brief_counterexample:
  "parse id trimQuote
     \<lparr>content = Some (js ''<f:42>''), attachments = None, mentions = None, other = []\<rparr>
   = Inr (([[(js ''type'', JStr (js ''face'')), (js ''id'', JStr (js ''42''))]],
           js ''<face,id=42>''),
          \<lparr>content = Some (js ''<f:42>''), attachments = None, mentions = None, other = []\<rparr>)
   \<and> js ''<face,id=42>'' \<noteq> js ''<face,>'' \<and> js ''<face,id=42>'' \<noteq> js ''<f:42,>''"
  by (simp add: eval_simps)

text \<open>
  C10, as the code has it. The text appended to \<open>brief\<close> for an attachment renders the
  fields of \<open>data\<close> as they are in the payload: it is \<open><type,key=value,...>\<close> over the
  attachment's fields other than \<open>content_type\<close>, with \<open>src\<close> and \<open>url\<close> among them
  unprefixed, while the segment pushed for the same attachment has \<open>src\<close> and \<open>url\<close>
  prefixed by \<open>https://\<close>. And a bracket tag whose attribute list \<open>attrs\<close> is empty when
  the segment is pushed, that is after the classification of its type, has the brief
  form \<open><type,>\<close>, with a trailing comma, while its segment has the \<open>type\<close> only; this
  holds for the match alone and for a payload whose content is that tag. In terms of
  the tag as written: a tag \<open><written>\<close> without comma, where \<open>written\<close> neither starts
  with \<open>@!\<close> nor is \<open>@everyone\<close>, and starts with \<open>faceType\<close> or with \<open>@\<close> or is no
  shorthand \<open>letters:digits\<close>, has the segment \<open>{type}\<close> and the brief \<open><type,>\<close>, with
  \<open>type\<close> being \<open>face\<close> when \<open>written\<close> starts with \<open>faceType\<close> and \<open>written\<close> otherwise.
  So the brief and the segments differ by more than the case of the keys.
\<close>

theorem brief_differs_from_segments:
  "(parse lc tq p = Inr ((segs, brief), p') \<longrightarrow>
      (\<exists>scanned sb attached.
         segs = scanned @ map fst attached \<and> brief = sb @ concat (map snd attached) \<and>
         list_all2
           (\<lambda>a out. \<exists>ct. obj_get a (js ''content_type'') = Some (JStr ct) \<and>
              snd out = js ''<'' @ takeWhile (\<lambda>x. x \<noteq> SLASH) ct @ js '','' @
                join [COMMA] (map (\<lambda>(key, v). key @ js ''='' @ to_string v) (rest_data a)) @ js ''>'' \<and>
              obj_get (fst out) (js ''src'') =
                Some (JStr (js ''https://'' @ to_string_opt (obj_get a (js ''src'')))) \<and>
              obj_get (fst out) (js ''url'') =
                Some (JStr (js ''https://'' @ to_string_opt (obj_get a (js ''url'')))))
           (attachments_of p) attached)) \<and>
   (split inner COMMA = type0 # attrs0 \<and> classify ms type0 attrs0 = Inr (type, []) \<longrightarrow>
      match_out lc tq ms (LANGLE # inner @ [RANGLE]) =
        Inr ([(js ''type'', JStr type)], js ''<'' @ type @ js '',>'')) \<and>
   (inner \<noteq> [] \<and> RANGLE \<notin> set inner \<and> split inner COMMA = type0 # attrs0 \<and>
    classify (mentions p) type0 attrs0 = Inr (type, []) \<and>
    content p = Some (LANGLE # inner @ [RANGLE]) \<and>
    (attachments p = None \<or> attachments p = Some []) \<longrightarrow>
      parse lc tq p = Inr (([[(js ''type'', JStr type)]], js ''<'' @ type @ js '',>''),
                        p\<lparr>attachments := None, mentions := None\<rparr>)) \<and>
   (COMMA \<notin> set written \<and> \<not> startsWith written (js ''@!'') \<and> written \<noteq> js ''@everyone'' \<and>
    (startsWith written (js ''faceType'') \<or> startsWith written (js ''@'') \<or> \<not> shorthand written) \<longrightarrow>
      match_out lc tq ms' (LANGLE # written @ [RANGLE]) =
        Inr ([(js ''type'',
               JStr (if startsWith written (js ''faceType'') then js ''face'' else written))],
             js ''<'' @ (if startsWith written (js ''faceType'') then js ''face'' else written)
               @ js '',>''))"
proof (intro conjI impI)
  assume "parse lc tq p = Inr ((segs, brief), p')"
  from parse_returns [OF this] obtain scanned sb attached where
    att: "list_all2 (\<lambda>a out. attachment_segment a = Inr out) (attachments_of p) attached" and
    eqs: "segs = scanned @ map fst attached" "brief = sb @ concat (map snd attached)"
    by blast
  from att have "list_all2
           (\<lambda>a out. \<exists>ct. obj_get a (js ''content_type'') = Some (JStr ct) \<and>
              snd out = js ''<'' @ takeWhile (\<lambda>x. x \<noteq> SLASH) ct @ js '','' @
                join [COMMA] (map (\<lambda>(key, v). key @ js ''='' @ to_string v) (rest_data a)) @ js ''>'' \<and>
              obj_get (fst out) (js ''src'') =
                Some (JStr (js ''https://'' @ to_string_opt (obj_get a (js ''src'')))) \<and>
              obj_get (fst out) (js ''url'') =
                Some (JStr (js ''https://'' @ to_string_opt (obj_get a (js ''url'')))))
           (attachments_of p) attached"
    by (rule list_all2_mono) (rule attachment_segment_brief)
  with eqs show "\<exists>scanned sb attached.
         segs = scanned @ map fst attached \<and> brief = sb @ concat (map snd attached) \<and>
         list_all2
           (\<lambda>a out. \<exists>ct. obj_get a (js ''content_type'') = Some (JStr ct) \<and>
              snd out = js ''<'' @ takeWhile (\<lambda>x. x \<noteq> SLASH) ct @ js '','' @
                join [COMMA] (map (\<lambda>(key, v). key @ js ''='' @ to_string v) (rest_data a)) @ js ''>'' \<and>
              obj_get (fst out) (js ''src'') =
                Some (JStr (js ''https://'' @ to_string_opt (obj_get a (js ''src'')))) \<and>
              obj_get (fst out) (js ''url'') =
                Some (JStr (js ''https://'' @ to_string_opt (obj_get a (js ''url'')))))
           (attachments_of p) attached"
    by (intro exI [of _ scanned] exI [of _ sb] exI [of _ attached]) simp
next
  assume "split inner COMMA = type0 # attrs0 \<and> classify ms type0 attrs0 = Inr (type, [])"
  then have "split inner COMMA = type0 # attrs0" and "classify ms type0 attrs0 = Inr (type, [])"
    by simp_all
  then have "tag lc tq ms inner = Inr ([(js ''type'', JStr type)], js ''<'' @ type @ js '',>'')"
    by (rule tag_no_attrs)
  then show "match_out lc tq ms (LANGLE # inner @ [RANGLE]) =
      Inr ([(js ''type'', JStr type)], js ''<'' @ type @ js '',>'')"
    using slice_inner [of LANGLE inner RANGLE] by (simp add: match_out_def startsWith_langle)
next
  assume h: "inner \<noteq> [] \<and> RANGLE \<notin> set inner \<and> split inner COMMA = type0 # attrs0 \<and>
    classify (mentions p) type0 attrs0 = Inr (type, []) \<and>
    content p = Some (LANGLE # inner @ [RANGLE]) \<and>
    (attachments p = None \<or> attachments p = Some [])"
  then have "split inner COMMA = type0 # attrs0"
    and "classify (mentions p) type0 attrs0 = Inr (type, [])"
    by simp_all
  then have t: "tag lc tq (mentions p) inner = Inr ([(js ''type'', JStr type)], js ''<'' @ type @ js '',>'')"
    by (rule tag_no_attrs)
  from h have "scanner lc tq (mentions p) (content_of p) =
      Inr ([[(js ''type'', JStr type)]], js ''<'' @ type @ js '',>'')"
    by (simp add: content_of_def scanner_single_tag t)
  with h show "parse lc tq p = Inr (([[(js ''type'', JStr type)]], js ''<'' @ type @ js '',>''),
                        p\<lparr>attachments := None, mentions := None\<rparr>)"
    by (simp add: parse_no_attachments)
next
  assume w: "COMMA \<notin> set written \<and> \<not> startsWith written (js ''@!'') \<and> written \<noteq> js ''@everyone'' \<and>
    (startsWith written (js ''faceType'') \<or> startsWith written (js ''@'') \<or> \<not> shorthand written)"
  then have "split written COMMA = written # []" by (simp add: split_no_sep)
  moreover from w have "classify ms' written [] =
      Inr (if startsWith written (js ''faceType'') then js ''face'' else written, [])"
    by (auto simp: classify_def)
  ultimately have "tag lc tq ms' written =
      Inr ([(js ''type'',
             JStr (if startsWith written (js ''faceType'') then js ''face'' else written))],
           js ''<'' @ (if startsWith written (js ''faceType'') then js ''face'' else written)
             @ js '',>'')"
    by (rule tag_no_attrs)
  then show "match_out lc tq ms' (LANGLE # written @ [RANGLE]) =
        Inr ([(js ''type'',
               JStr (if startsWith written (js ''faceType'') then js ''face'' else written))],
             js ''<'' @ (if startsWith written (js ''faceType'') then js ''face'' else written)
               @ js '',>'')"
    using slice_inner [of LANGLE written RANGLE] by (simp add: match_out_def startsWith_langle)
qed


theorem brief_differs_from_segments_witness:
  "(\<exists>scanned sb attached.
      [[(js ''type'', JStr (js ''image'')), (js ''src'', JStr (js ''https://cdn.x/a.png'')),
        (js ''url'', JStr (js ''https://cdn.x/a.png''))]] = scanned @ map fst attached \<and>
      js ''<image,src=cdn.x/a.png,url=cdn.x/a.png>'' = sb @ concat (map snd attached) \<and>
      list_all2
        (\<lambda>a out. \<exists>ct. obj_get a (js ''content_type'') = Some (JStr ct) \<and>
           snd out = js ''<'' @ takeWhile (\<lambda>x. x \<noteq> SLASH) ct @ js '','' @
             join [COMMA] (map (\<lambda>(key, v). key @ js ''='' @ to_string v) (rest_data a)) @ js ''>'' \<and>
           obj_get (fst out) (js ''src'') =
             Some (JStr (js ''https://'' @ to_string_opt (obj_get a (js ''src'')))) \<and>
           obj_get (fst out) (js ''url'') =
             Some (JStr (js ''https://'' @ to_string_opt (obj_get a (js ''url'')))))
        [[(js ''content_type'', JStr (js ''image/png'')), (js ''src'', JStr (js ''cdn.x/a.png'')),
          (js ''url'', JStr (js ''cdn.x/a.png''))]] attached) \<and>
   match_out id trimQuote None (LANGLE # js ''a'' @ [RANGLE])
     = Inr ([(js ''type'', JStr (js ''a''))], js ''<a,>'') \<and>
   parse id trimQuote \<lparr>content = Some (js ''<a>''), attachments = None, mentions = None, other = []\<rparr>
     = Inr (([[(js ''type'', JStr (js ''a''))]], js ''<a,>''),
            \<lparr>content = Some (js ''<a>''), attachments = None, mentions = None, other = []\<rparr>) \<and>
   match_out id trimQuote None (LANGLE # js ''faceType'' @ [RANGLE])
     = Inr ([(js ''type'', JStr (js ''face''))], js ''<face,>'') \<and>
   match_out id trimQuote None (LANGLE # js ''@here'' @ [RANGLE])
     = Inr ([(js ''type'', JStr (js ''@here''))], js ''<@here,>'')"
proof -
  have face: "match_out id trimQuote None (LANGLE # js ''faceType'' @ [RANGLE])
     = Inr ([(js ''type'', JStr (js ''face''))], js ''<face,>'')"
    using brief_differs_from_segments
            [where lc = id and tq = trimQuote and written = "js ''faceType''" and ms' = None,
             THEN conjunct2, THEN conjunct2, THEN conjunct2]
    by (simp add: js_def startsWith_def shorthand_def)
  have here: "match_out id trimQuote None (LANGLE # js ''@here'' @ [RANGLE])
     = Inr ([(js ''type'', JStr (js ''@here''))], js ''<@here,>'')"
    using brief_differs_from_segments
            [where lc = id and tq = trimQuote and written = "js ''@here''" and ms' = None,
             THEN conjunct2, THEN conjunct2, THEN conjunct2]
    by (simp add: js_def startsWith_def shorthand_def)
  have returned:
    "parse id trimQuote
       \<lparr>content = None,
          attachments = Some
            [[(js ''content_type'', JStr (js ''image/png'')), (js ''src'', JStr (js ''cdn.x/a.png'')),
              (js ''url'', JStr (js ''cdn.x/a.png''))]],
          mentions = None, other = []\<rparr>
     = Inr (([[(js ''type'', JStr (js ''image'')), (js ''src'', JStr (js ''https://cdn.x/a.png'')),
               (js ''url'', JStr (js ''https://cdn.x/a.png''))]],
             js ''<image,src=cdn.x/a.png,url=cdn.x/a.png>''),
            \<lparr>content = None, attachments = None, mentions = None, other = []\<rparr>)"
    by (simp add: eval_simps)
  have hyps: "js ''a'' \<noteq> [] \<and> RANGLE \<notin> set (js ''a'') \<and> split (js ''a'') COMMA = js ''a'' # [] \<and>
    classify None (js ''a'') [] = Inr (js ''a'', [])"
    by (simp add: eval_simps)
  from brief_differs_from_segments
         [of id trimQuote "\<lparr>content = None,
          attachments = Some
            [[(js ''content_type'', JStr (js ''image/png'')), (js ''src'', JStr (js ''cdn.x/a.png'')),
              (js ''url'', JStr (js ''cdn.x/a.png''))]],
          mentions = None, other = []\<rparr>", THEN conjunct1, rule_format, OF returned]
       brief_differs_from_segments
         [of id trimQuote "\<lparr>content = Some (js ''<a>''), attachments = None, mentions = None, other = []\<rparr>"
             _ _ _ "js ''a''" "js ''a''" "[]" _ "js ''a''",
          THEN conjunct2, THEN conjunct2, THEN conjunct1]
       brief_differs_from_segments
         [of id trimQuote _ _ _ _ "js ''a''" "js ''a''" "[]" None "js ''a''",
          THEN conjunct2, THEN conjunct1]
       hyps face here
  show ?thesis
    by (simp add: attachments_of_def js_def)
qed





text \<open>
  C5. The claim: for a payload with no attachments whose content consists only of bracket
  tags (lowercase keys, values that need no quoting), parsing the brief gives the same
  segments as parsing the content. A tag with no attribute has the brief form
  \<open><type,>\<close>, and the empty attribute after the comma is read back as an entry with the
  empty key and the empty value: the content \<open><a>\<close> gives the segment \<open>{type: "a"}\<close>, its
  brief \<open><a,>\<close> gives \<open>{type: "a", "": ""}\<close>.
\<close>

theorem brief_roundtrip_counterexample:
  "parse id trimQuote
     \<lparr>content = Some (js ''<a>''), attachments = None, mentions = None, other = []\<rparr>
   = Inr (([[(js ''type'', JStr (js ''a''))]], js ''<a,>''),
          \<lparr>content = Some (js ''<a>''), attachments = None, mentions = None, other = []\<rparr>) \<and>
   parse id trimQuote
     \<lparr>content = Some (js ''<a,>''), attachments = None, mentions = None, other = []\<rparr>
   = Inr (([[(js ''type'', JStr (js ''a'')), ([], JStr [])]], js ''<a,>''),
          \<lparr>content = Some (js ''<a,>''), attachments = None, mentions = None, other = []\<rparr>) \<and>
   [[(js ''type'', JStr (js ''a''))]] \<noteq> [[(js ''type'', JStr (js ''a'')), ([], JStr [])]]"
  by (simp add: eval_simps)


text \<open>
  C5, as the code has it. For a payload with no attachments whose content consists only
  of stable bracket tags, \<open>Message.parse\<close> returns, and parsing any payload with no
  attachments whose content is the resulting brief returns the same segments and the
  same brief again. By \<open>ordinary_tag_stable\<close>, a tag with at least one attribute whose
  type does not start with \<open>@!\<close> and is not \<open>@everyone\<close> is stable, whatever the case of its
  keys and whatever its values.
\<close>

theorem brief_roundtrip:
  assumes "list_all (stable_tag (mentions p)) inners"
    and "content p = Some (bracket_tags inners)"
    and "attachments p = None \<or> attachments p = Some []"
  shows "\<exists>segs brief.
           parse lc tq p = Inr ((segs, brief), p\<lparr>attachments := None, mentions := None\<rparr>) \<and>
           (\<forall>q. content q = Some brief \<and> (attachments q = None \<or> attachments q = Some []) \<longrightarrow>
                parse lc tq q = Inr ((segs, brief), q\<lparr>attachments := None, mentions := None\<rparr>))"
proof -
  from scanner_stable_tags [OF assms(1)] obtain segs inners' where
    first: "scanner lc tq (mentions p) (bracket_tags inners) = Inr (segs, bracket_tags inners')" and
    again: "\<And>ms'. scanner lc tq ms' (bracket_tags inners') = Inr (segs, bracket_tags inners')"
    by blast
  have "parse lc tq p = Inr ((segs, bracket_tags inners'), p\<lparr>attachments := None, mentions := None\<rparr>)"
    using assms(2) first by (simp add: parse_no_attachments [OF assms(3)] content_of_def)
  moreover have "parse lc tq q = Inr ((segs, bracket_tags inners'), q\<lparr>attachments := None, mentions := None\<rparr>)"
    if "content q = Some (bracket_tags inners') \<and> (attachments q = None \<or> attachments q = Some [])" for q
    using that again [of "mentions q"] by (simp add: parse_no_attachments content_of_def)
  ultimately show ?thesis by blast
qed


theorem brief_roundtrip_witness:
  "parse id trimQuote
     \<lparr>content = Some (js ''<a,b=1><faceType,faceId=7><f:42>''), attachments = None,
        mentions = None, other = []\<rparr>
   = Inr (([[(js ''type'', JStr (js ''a'')), (js ''b'', JStr (js ''1''))],
            [(js ''type'', JStr (js ''face'')), (js ''id'', JStr (js ''7''))],
            [(js ''type'', JStr (js ''face'')), (js ''id'', JStr (js ''42''))]],
           js ''<a,b=1><face,id=7><face,id=42>''),
          \<lparr>content = Some (js ''<a,b=1><faceType,faceId=7><f:42>''), attachments = None,
             mentions = None, other = []\<rparr>) \<and>
   parse id trimQuote
     \<lparr>content = Some (js ''<a,b=1><face,id=7><face,id=42>''), attachments = None,
        mentions = None, other = []\<rparr>
   = Inr (([[(js ''type'', JStr (js ''a'')), (js ''b'', JStr (js ''1''))],
            [(js ''type'', JStr (js ''face'')), (js ''id'', JStr (js ''7''))],
            [(js ''type'', JStr (js ''face'')), (js ''id'', JStr (js ''42''))]],
           js ''<a,b=1><face,id=7><face,id=42>''),
          \<lparr>content = Some (js ''<a,b=1><face,id=7><face,id=42>''), attachments = None,
             mentions = None, other = []\<rparr>)"
proof -
  let ?p = "\<lparr>content = Some (js ''<a,b=1><faceType,faceId=7><f:42>''), attachments = None,
        mentions = None, other = []\<rparr>"
  let ?q = "\<lparr>content = Some (js ''<a,b=1><face,id=7><face,id=42>''), attachments = None,
        mentions = None, other = []\<rparr>"
  have stable: "list_all (stable_tag None) [js ''a,b=1'', js ''faceType,faceId=7'', js ''f:42'']"
    by (simp add: stable_tag_def plain_token_def eval_simps)
  have tags: "content ?p = Some (bracket_tags [js ''a,b=1'', js ''faceType,faceId=7'', js ''f:42''])"
    by (simp add: bracket_tags_def js_def)
  have first: "parse id trimQuote ?p
     = Inr (([[(js ''type'', JStr (js ''a'')), (js ''b'', JStr (js ''1''))],
              [(js ''type'', JStr (js ''face'')), (js ''id'', JStr (js ''7''))],
              [(js ''type'', JStr (js ''face'')), (js ''id'', JStr (js ''42''))]],
             js ''<a,b=1><face,id=7><face,id=42>''),
            ?p\<lparr>attachments := None, mentions := None\<rparr>)"
    by (simp add: eval_simps)
  from brief_roundtrip [of ?p "[js ''a,b=1'', js ''faceType,faceId=7'', js ''f:42'']" id trimQuote]
    stable tags
  obtain segs brief where
    r1: "parse id trimQuote ?p = Inr ((segs, brief), ?p\<lparr>attachments := None, mentions := None\<rparr>)" and
    r2: "\<forall>q. content q = Some brief \<and> (attachments q = None \<or> attachments q = Some []) \<longrightarrow>
           parse id trimQuote q = Inr ((segs, brief), q\<lparr>attachments := None, mentions := None\<rparr>)"
    by auto
  from r1 first have
    "segs = [[(js ''type'', JStr (js ''a'')), (js ''b'', JStr (js ''1''))],
              [(js ''type'', JStr (js ''face'')), (js ''id'', JStr (js ''7''))],
              [(js ''type'', JStr (js ''face'')), (js ''id'', JStr (js ''42''))]]"
    "brief = js ''<a,b=1><face,id=7><face,id=42>''"
    by simp_all
  with r2 [rule_format, of ?q] first show ?thesis by simp
qed

end
